theory Spec2Isabelle
  imports Complex_Main
begin

section \<open>JSON values\<close>

text \<open>
  The wire format is UTF-8 JSON text.  A parsed frame is a value of the sum type below; an
  object keeps its own properties in insertion order, each name once.  \<open>JSON.parse\<close> is a builtin of the
  platform, so an inbound frame is represented by its outcome: \<open>None\<close> when the parse throws,
  \<open>Some v\<close> otherwise.
\<close>

datatype json =
  JNull
  | JBool bool
  | JNum real
  | JStr string
  | JArr "json list"
  | JObj "(string \<times> json) list"

text \<open>A position inside a value: a property name of an object or an index of an array.\<close>

datatype seg = Key string | Index nat

fun at_path :: "json \<Rightarrow> seg list \<Rightarrow> json option" where
  "at_path v [] = Some v"
| "at_path (JObj kvs) (Key k # p) =
     (case map_of kvs k of None \<Rightarrow> None | Some v \<Rightarrow> at_path v p)"
| "at_path (JArr xs) (Index i # p) = (if i < length xs then at_path (xs ! i) p else None)"
| "at_path _ _ = None"

section \<open>Sanitizer (ws/sanitize.ts)\<close>

definition DANGEROUS_KEYS :: "string list" where
  "DANGEROUS_KEYS = [''__proto__'', ''constructor'', ''prototype'']"

text \<open>
  Modelled from the spec: \<open>sanitizeJson\<close> is imported by the server from \<open>./sanitize.js\<close>,
  a file that is not among the sources.  The spec (4.1) says: return a value with identical
  structure except that at every nesting level (objects and arrays, recursively) any object
  key literally equal to one of the three names is omitted; everything else is preserved.
\<close>

fun sanitizeJson :: "json \<Rightarrow> json" where
  "sanitizeJson (JArr xs) = JArr (map sanitizeJson xs)"
| "sanitizeJson (JObj kvs) =
     JObj (map (\<lambda>(k, v). (k, sanitizeJson v))
            (filter (\<lambda>(k, v). k \<notin> set DANGEROUS_KEYS) kvs))"
| "sanitizeJson v = v"

text \<open>
  Modelled from the spec: the relation between an input and a result that the contract
  (4.1) puts into words.  The result has the structure of the input (the same kind of
  value, an array of the same length, the keys of an object in the same order) except that
  the three names are left out of every object; what is kept is related in the same way,
  and a value that is neither an array nor an object is kept as it is.
\<close>

fun stripped :: "json \<Rightarrow> json \<Rightarrow> bool"
  and stripped_elems :: "json list \<Rightarrow> json list \<Rightarrow> bool"
  and stripped_props :: "(string \<times> json) list \<Rightarrow> (string \<times> json) list \<Rightarrow> bool" where
  "stripped JNull w = (w = JNull)"
| "stripped (JBool b) w = (w = JBool b)"
| "stripped (JNum n) w = (w = JNum n)"
| "stripped (JStr t) w = (w = JStr t)"
| "stripped (JArr xs) w = (case w of JArr ys \<Rightarrow> stripped_elems xs ys | _ \<Rightarrow> False)"
| "stripped (JObj kvs) w = (case w of JObj kvs' \<Rightarrow> stripped_props kvs kvs' | _ \<Rightarrow> False)"
| "stripped_elems [] ys = (ys = [])"
| "stripped_elems (x # xs) ys =
     (case ys of [] \<Rightarrow> False | y # ys' \<Rightarrow> stripped x y \<and> stripped_elems xs ys')"
| "stripped_props [] kvs' = (kvs' = [])"
| "stripped_props ((k, v) # kvs) kvs' =
     (if k \<in> set DANGEROUS_KEYS then stripped_props kvs kvs'
      else (case kvs' of
              [] \<Rightarrow> False
            | (k', v') # r \<Rightarrow> k' = k \<and> stripped v v' \<and> stripped_props kvs r))"

text \<open>
  Modelled from the spec: the call as an operation on the memory of the program.  The
  values the program holds live in a store, \<open>cells\<close>, addressed by position, and
  \<open>object_prototype\<close> holds the own properties of the object that every plain object
  inherits from (the shared object of the claim).  The spec (4.1) has the function return a
  value and forbids it to mutate its input or to let a stripped key reach a shared object:
  the call reads the cell of its argument, allocates the result in a new cell and returns
  the address of that cell.
\<close>

record js_store =
  object_prototype :: "(string \<times> json) list"
  cells :: "json list"

definition sanitizeJson_call :: "nat \<Rightarrow> js_store \<Rightarrow> nat \<times> js_store" where
  "sanitizeJson_call a h =
     (length (cells h), h\<lparr> cells := cells h @ [sanitizeJson (cells h ! a)] \<rparr>)"

text \<open>Some object, at some depth, has one of the three names among its own keys.\<close>

fun has_dangerous_key :: "json \<Rightarrow> bool" where
  "has_dangerous_key (JArr xs) = list_ex has_dangerous_key xs"
| "has_dangerous_key (JObj kvs) =
     list_ex (\<lambda>(k, v). k \<in> set DANGEROUS_KEYS \<or> has_dangerous_key v) kvs"
| "has_dangerous_key v = False"

text \<open>A value that is neither an array nor an object.\<close>

fun is_leaf :: "json \<Rightarrow> bool" where
  "is_leaf (JArr xs) = False"
| "is_leaf (JObj kvs) = False"
| "is_leaf v = True"

text \<open>The property names a path goes through.\<close>

fun path_keys :: "seg list \<Rightarrow> string list" where
  "path_keys [] = []"
| "path_keys (Key k # p) = k # path_keys p"
| "path_keys (Index i # p) = path_keys p"

text \<open>
  The frame the security test sends (tests/ws-security.test.ts, line 144), parsed; what
  the test expects the handler to receive; and a store that holds the frame.
\<close>

definition test_message :: json where
  "test_message =
     JObj [(''type'', JStr ''test''),
           (''__proto__'', JObj [(''isAdmin'', JBool True)]),
           (''data'', JObj [(''nested'', JBool True),
                            (''__proto__'', JObj [(''evil'', JBool True)])])]"

definition test_message_clean :: json where
  "test_message_clean =
     JObj [(''type'', JStr ''test''), (''data'', JObj [(''nested'', JBool True)])]"

definition test_store :: js_store where
  "test_store = \<lparr> object_prototype = [], cells = [JNull, test_message] \<rparr>"

section \<open>Reconnecting client (ws/client.ts)\<close>

text \<open>
  The class \<open>WSClient\<close>.  Line numbers are those of the source file that holds it
  (src/providers/index.ts, second part).
\<close>

subsection \<open>Inbound frames: the \<open>onmessage\<close> handler\<close>

text \<open>
  The names every ordinary object inherits from \<open>Object.prototype\<close> (ECMAScript).  The
  operator \<open>in\<close> of the handler looks a name up among the own properties of the object and
  then along its prototype chain; the objects \<open>JSON.parse\<close> creates have \<open>Object.prototype\<close>
  as their prototype.
\<close>

definition OBJECT_PROTOTYPE_KEYS :: "string list" where
  "OBJECT_PROTOTYPE_KEYS =
     [''constructor'', ''__defineGetter__'', ''__defineSetter__'', ''hasOwnProperty'',
      ''__lookupGetter__'', ''__lookupSetter__'', ''isPrototypeOf'',
      ''propertyIsEnumerable'', ''toString'', ''valueOf'', ''__proto__'',
      ''toLocaleString'']"

text \<open>\<open>k in raw\<close> for a plain object \<open>raw\<close> with own properties \<open>kvs\<close>.\<close>

definition js_in :: "string \<Rightarrow> (string \<times> json) list \<Rightarrow> bool" where
  "js_in k kvs = (k \<in> set (map fst kvs) \<or> k \<in> set OBJECT_PROTOTYPE_KEYS)"

text \<open>\<open>!raw\<close> is the negation of this: null, false, 0 and the empty string are falsy.\<close>

fun js_truthy :: "json \<Rightarrow> bool" where
  "js_truthy JNull = False"
| "js_truthy (JBool b) = b"
| "js_truthy (JNum n) = (n \<noteq> 0)"
| "js_truthy (JStr s) = (s \<noteq> [])"
| "js_truthy (JArr xs) = True"
| "js_truthy (JObj kvs) = True"

text \<open>\<open>typeof raw === 'object'\<close>: objects, arrays and null.\<close>

fun js_typeof_object :: "json \<Rightarrow> bool" where
  "js_typeof_object JNull = True"
| "js_typeof_object (JArr xs) = True"
| "js_typeof_object (JObj kvs) = True"
| "js_typeof_object v = False"

text \<open>
  \<open>typeof raw.type === 'string'\<close>.  An array has no property \<open>type\<close>, and nothing named
  \<open>type\<close> is inherited; reading a property of a primitive gives undefined.
\<close>

fun js_type_is_string :: "json \<Rightarrow> bool" where
  "js_type_is_string (JObj kvs) =
     (case map_of kvs ''type'' of Some (JStr s) \<Rightarrow> True | _ \<Rightarrow> False)"
| "js_type_is_string v = False"

text \<open>
  \<open>this.listeners.forEach((fn) => fn(raw))\<close>: the handlers are called in insertion order;
  a handler that throws ends the iteration (the exception is caught by the handler's
  \<open>try\<close>).  The result is the list of calls made.
\<close>

fun forEach_listeners :: "('h \<Rightarrow> json \<Rightarrow> bool) \<Rightarrow> 'h list \<Rightarrow> json \<Rightarrow> ('h \<times> json) list" where
  "forEach_listeners throws [] raw = []"
| "forEach_listeners throws (fn # fns) raw =
     (fn, raw) # (if throws fn raw then [] else forEach_listeners throws fns raw)"

text \<open>
  The \<open>onmessage\<close> handler of \<open>connect\<close> (lines 109-117).  Its whole body is inside
  \<open>try { ... } catch { }\<close>, so it never ends abruptly; what it does is the list of handler
  calls it makes.  After the first guard \<open>raw\<close> is a plain object.
\<close>

definition onmessage :: "('h \<Rightarrow> json \<Rightarrow> bool) \<Rightarrow> 'h list \<Rightarrow> json option \<Rightarrow> ('h \<times> json) list" where
  "onmessage throws fns e_data =
     (case e_data of
        None \<Rightarrow> []
      | Some raw \<Rightarrow>
          if \<not> js_truthy raw \<or> \<not> js_typeof_object raw \<or> \<not> js_type_is_string raw then []
          else (case raw of
                  JObj kvs \<Rightarrow>
                    if js_in ''__proto__'' kvs \<or> js_in ''constructor'' kvs \<or> js_in ''prototype'' kvs
                    then []
                    else forEach_listeners throws fns raw
                | _ \<Rightarrow> []))"

text \<open>The claim's notion of a well-formed message: an object with a string \<open>type\<close> field.\<close>

definition well_formed :: "json \<Rightarrow> bool" where
  "well_formed raw =
     (case raw of
        JObj kvs \<Rightarrow> (case map_of kvs ''type'' of Some (JStr s) \<Rightarrow> True | _ \<Rightarrow> False)
      | _ \<Rightarrow> False)"

subsection \<open>State of a client and of its environment\<close>

datatype readyState = CONNECTING | OPEN | CLOSING | CLOSED

text \<open>
  A WebSocket object as the client sees it: its \<open>readyState\<close> and the frames handed to its
  \<open>send\<close> so far.
\<close>

record sock =
  readyState :: readyState
  sent :: "string list"

text \<open>
  The fields of the class \<open>WSClient\<close>, followed by the part of the platform its methods act
  on.  Sockets are objects shared between the client and the event loop (a socket that the
  client no longer refers to still carries the four handlers, which close over the client),
  so they live in a store, \<open>sockets\<close>, and \<open>ws\<close> is an index into it.  \<open>timers\<close> holds the
  pending timeouts (handle and delay), \<open>nextTimer\<close> the next handle \<open>setTimeout\<close> returns
  (handles are positive numbers or objects, so a handle is always truthy),
  and \<open>delivered\<close> logs the calls of subscriber handlers.
\<close>

record 'h WSClient =
  ws :: "nat option"
  listeners :: "'h list"
  queue :: "string list"
  attempts :: nat
  disposed :: bool
  reconnectTimer :: "nat option"
  url :: string
  maxAttempts :: int
  maxBackoffMs :: real
  maxQueueSize :: int
  sockets :: "sock list"
  timers :: "(nat \<times> real) list"
  nextTimer :: nat
  delivered :: "('h \<times> json) list"

text \<open>
  What the platform and the callers contribute: \<open>JSON.stringify\<close> on the messages that are
  sent, the \<open>readyState\<close> a socket has after a \<open>send\<close> (a transport may start closing when
  it cannot buffer), and whether a subscriber handler throws on a message.
\<close>

record ('h, 'm) env =
  stringify :: "'m \<Rightarrow> string"
  xmit :: "sock \<Rightarrow> string \<Rightarrow> readyState"
  handler_throws :: "'h \<Rightarrow> json \<Rightarrow> bool"

record WSClientOptions =
  opt_url :: string
  opt_maxAttempts :: "int option"
  opt_maxBackoffMs :: "real option"
  opt_maxQueueSize :: "int option"

text \<open>The constructor (lines 39-44) and the field initialisers (lines 27-32).\<close>

definition new_WSClient :: "WSClientOptions \<Rightarrow> 'h WSClient" where
  "new_WSClient options =
     \<lparr> ws = None, listeners = [], queue = [], attempts = 0, disposed = False,
       reconnectTimer = None,
       url = opt_url options,
       maxAttempts = (case opt_maxAttempts options of None \<Rightarrow> 10 | Some n \<Rightarrow> n),
       maxBackoffMs = (case opt_maxBackoffMs options of None \<Rightarrow> 30000 | Some b \<Rightarrow> b),
       maxQueueSize = (case opt_maxQueueSize options of None \<Rightarrow> 10 | Some q \<Rightarrow> q),
       sockets = [], timers = [], nextTimer = 1, delivered = [] \<rparr>"

text \<open>\<open>this.ws?.readyState\<close>; \<open>None\<close> when \<open>this.ws\<close> is null.\<close>

definition ws_readyState :: "'h WSClient \<Rightarrow> readyState option" where
  "ws_readyState c =
     (case ws c of
        None \<Rightarrow> None
      | Some i \<Rightarrow> if i < length (sockets c) then Some (readyState (sockets c ! i)) else None)"

definition sock_send :: "('h, 'm) env \<Rightarrow> sock \<Rightarrow> string \<Rightarrow> sock" where
  "sock_send E s data = s\<lparr> sent := sent s @ [data], readyState := xmit E s data \<rparr>"

text \<open>\<open>this.ws.send(data)\<close>.\<close>

definition ws_send :: "('h, 'm) env \<Rightarrow> 'h WSClient \<Rightarrow> string \<Rightarrow> 'h WSClient" where
  "ws_send E c data =
     (case ws c of
        None \<Rightarrow> c
      | Some i \<Rightarrow>
          if i < length (sockets c)
          then c\<lparr> sockets := (sockets c)[i := sock_send E (sockets c ! i) data] \<rparr>
          else c)"

text \<open>\<open>close()\<close> of a socket: a connecting or open socket starts closing.\<close>

definition sock_close :: "sock \<Rightarrow> sock" where
  "sock_close s =
     (if readyState s = CONNECTING \<or> readyState s = OPEN then s\<lparr> readyState := CLOSING \<rparr> else s)"

definition set_readyState :: "nat \<Rightarrow> readyState \<Rightarrow> 'h WSClient \<Rightarrow> 'h WSClient" where
  "set_readyState i st c = c\<lparr> sockets := (sockets c)[i := (sockets c ! i)\<lparr> readyState := st \<rparr>] \<rparr>"

subsection \<open>Methods\<close>

text \<open>\<open>send\<close> (lines 63-73).  \<open>shift\<close> on an empty array leaves it empty, as \<open>tl\<close> does.\<close>

definition send :: "('h, 'm) env \<Rightarrow> 'h WSClient \<Rightarrow> 'm \<Rightarrow> 'h WSClient" where
  "send E c message =
     (let data = stringify E message in
      if ws_readyState c = Some OPEN then ws_send E c data
      else
        (let c1 = (if int (length (queue c)) \<ge> maxQueueSize c
                   then c\<lparr> queue := tl (queue c) \<rparr> else c)
         in c1\<lparr> queue := queue c1 @ [data] \<rparr>))"

text \<open>\<open>dispose\<close> (lines 76-85).\<close>

definition dispose :: "'h WSClient \<Rightarrow> 'h WSClient" where
  "dispose c =
     (let c1 = c\<lparr> disposed := True \<rparr>;
          c2 = (case reconnectTimer c1 of
                  None \<Rightarrow> c1
                | Some t \<Rightarrow> c1\<lparr> timers := filter (\<lambda>(t', d). t' \<noteq> t) (timers c1),
                                 reconnectTimer := None \<rparr>);
          c3 = (case ws c2 of
                  None \<Rightarrow> c2
                | Some i \<Rightarrow>
                    if i < length (sockets c2)
                    then c2\<lparr> sockets := (sockets c2)[i := sock_close (sockets c2 ! i)] \<rparr>
                    else c2)
      in c3\<lparr> ws := None, queue := [] \<rparr>)"

text \<open>\<open>connected\<close> (lines 88-90).\<close>

definition connected :: "'h WSClient \<Rightarrow> bool" where
  "connected c = (ws_readyState c = Some OPEN)"

text \<open>\<open>connect\<close> (lines 99-130): a new socket, connecting, becomes \<open>this.ws\<close>.\<close>

definition connect :: "'h WSClient \<Rightarrow> 'h WSClient" where
  "connect c =
     (if disposed c then c
      else c\<lparr> sockets := sockets c @ [\<lparr> readyState = CONNECTING, sent = [] \<rparr>],
              ws := Some (length (sockets c)) \<rparr>)"

text \<open>\<open>ensureConnection\<close> (lines 92-97).\<close>

definition ensureConnection :: "'h WSClient \<Rightarrow> 'h WSClient" where
  "ensureConnection c =
     (if ws_readyState c = Some OPEN \<or> ws_readyState c = Some CONNECTING then c
      else connect c)"

text \<open>\<open>subscribe\<close> (lines 50-60): \<open>Set.add\<close>, then \<open>ensureConnection\<close>.\<close>

definition subscribe :: "'h \<Rightarrow> 'h WSClient \<Rightarrow> 'h WSClient" where
  "subscribe handler c =
     ensureConnection
       (c\<lparr> listeners := (if handler \<in> set (listeners c) then listeners c
                           else listeners c @ [handler]) \<rparr>)"

text \<open>The closure \<open>subscribe\<close> returns (lines 54-59).\<close>

definition unsubscribe :: "'h \<Rightarrow> 'h WSClient \<Rightarrow> 'h WSClient" where
  "unsubscribe handler c =
     (let c1 = c\<lparr> listeners := removeAll handler (listeners c) \<rparr>
      in if length (listeners c1) = 0 then dispose c1 else c1)"

text \<open>
  The delay of \<open>scheduleReconnect\<close> (lines 136-138), for the attempt counter \<open>n\<close>, the
  ceiling and the value \<open>r\<close> of \<open>Math.random()\<close>.  Arithmetic is over the reals.
\<close>

definition reconnect_delay :: "nat \<Rightarrow> real \<Rightarrow> real \<Rightarrow> real" where
  "reconnect_delay n maxBackoff r =
     (let base = min (1000 * 2 ^ n) maxBackoff;
          jitter = base * (0.7 + r * 0.6);
          delay = min jitter maxBackoff
      in delay)"

text \<open>\<open>scheduleReconnect\<close> (lines 132-144).\<close>

definition scheduleReconnect :: "real \<Rightarrow> 'h WSClient \<Rightarrow> 'h WSClient" where
  "scheduleReconnect r c =
     (if maxAttempts c > 0 \<and> int (attempts c) \<ge> maxAttempts c then c
      else
        (let delay = reconnect_delay (attempts c) (maxBackoffMs c) r
         in c\<lparr> attempts := attempts c + 1,
                timers := timers c @ [(nextTimer c, delay)],
                reconnectTimer := Some (nextTimer c),
                nextTimer := nextTimer c + 1 \<rparr>))"

text \<open>\<open>flushQueue\<close> (lines 146-150).\<close>

function flushQueue :: "('h, 'm) env \<Rightarrow> 'h WSClient \<Rightarrow> 'h WSClient" where
  "flushQueue E c =
     (if length (queue c) > 0 \<and> ws_readyState c = Some OPEN
      then flushQueue E (ws_send E (c\<lparr> queue := tl (queue c) \<rparr>) (hd (queue c)))
      else c)"
  by pat_completeness auto
termination
  by (relation "measure (\<lambda>(E, c). length (queue c))")
     (auto simp: ws_send_def split: option.splits)

declare flushQueue.simps [simp del]

subsection \<open>Socket and timer callbacks\<close>

definition onopen :: "('h, 'm) env \<Rightarrow> 'h WSClient \<Rightarrow> 'h WSClient" where
  "onopen E c = flushQueue E (c\<lparr> attempts := 0 \<rparr>)"

definition onclose :: "real \<Rightarrow> 'h WSClient \<Rightarrow> 'h WSClient" where
  "onclose r c =
     (if \<not> disposed c \<and> length (listeners c) > 0 then scheduleReconnect r c else c)"

definition onerror :: "'h WSClient \<Rightarrow> 'h WSClient" where
  "onerror c = c"

text \<open>The callback given to \<open>setTimeout\<close> (lines 140-143).\<close>

definition reconnect_callback :: "'h WSClient \<Rightarrow> 'h WSClient" where
  "reconnect_callback c = connect (c\<lparr> reconnectTimer := None \<rparr>)"

subsection \<open>Turns of the event loop\<close>

text \<open>
  One turn is a call of a public method or an event the platform raises on a socket the
  client created or on a pending timer.  A socket opens only while connecting, receives
  messages only while open and closes once; \<open>SockClose\<close> carries the value \<open>Math.random()\<close>
  returns if the handler asks for it.  An event that cannot occur in a state leaves it as
  it is.
\<close>

datatype ('h, 'm) event =
  Subscribe 'h
  | Unsubscribe 'h
  | Send 'm
  | Dispose
  | SockOpen nat
  | SockMessage nat "json option"
  | SockError nat
  | SockClose nat real
  | TimerFire nat

definition step :: "('h, 'm) env \<Rightarrow> 'h WSClient \<Rightarrow> ('h, 'm) event \<Rightarrow> 'h WSClient" where
  "step E c ev =
     (case ev of
        Subscribe h \<Rightarrow> subscribe h c
      | Unsubscribe h \<Rightarrow> unsubscribe h c
      | Send m \<Rightarrow> send E c m
      | Dispose \<Rightarrow> dispose c
      | SockOpen i \<Rightarrow>
          if i < length (sockets c) \<and> readyState (sockets c ! i) = CONNECTING
          then onopen E (set_readyState i OPEN c) else c
      | SockMessage i d \<Rightarrow>
          if i < length (sockets c) \<and> readyState (sockets c ! i) = OPEN
          then c\<lparr> delivered := delivered c @ onmessage (handler_throws E) (listeners c) d \<rparr> else c
      | SockError i \<Rightarrow> onerror c
      | SockClose i r \<Rightarrow>
          if i < length (sockets c) \<and> readyState (sockets c ! i) \<noteq> CLOSED
          then onclose r (set_readyState i CLOSED c) else c
      | TimerFire t \<Rightarrow>
          if t \<in> set (map fst (timers c))
          then reconnect_callback (c\<lparr> timers := filter (\<lambda>(t', d). t' \<noteq> t) (timers c) \<rparr>)
          else c)"

definition run :: "('h, 'm) env \<Rightarrow> 'h WSClient \<Rightarrow> ('h, 'm) event list \<Rightarrow> 'h WSClient" where
  "run E c evs = foldl (step E) c evs"

text \<open>The sockets that are connecting or open, and the number of pending timers.\<close>

definition live_sockets :: "'h WSClient \<Rightarrow> sock list" where
  "live_sockets c =
     filter (\<lambda>s. readyState s = CONNECTING \<or> readyState s = OPEN) (sockets c)"

definition pending_timers :: "'h WSClient \<Rightarrow> nat" where
  "pending_timers c = length (timers c)"

subsection \<open>Predicates and sample clients used in the statements\<close>

text \<open>The event makes a connecting socket open, so that its \<open>onopen\<close> handler runs.\<close>

definition opens :: "'h WSClient \<Rightarrow> ('h, 'm) event \<Rightarrow> bool" where
  "opens c ev =
     (case ev of
        SockOpen i \<Rightarrow> i < length (sockets c) \<and> readyState (sockets c ! i) = CONNECTING
      | _ \<Rightarrow> False)"

text \<open>The queue is within a limit of at least one.\<close>

definition queue_bounded :: "'h WSClient \<Rightarrow> bool" where
  "queue_bounded c = (1 \<le> maxQueueSize c \<and> int (length (queue c)) \<le> maxQueueSize c)"

text \<open>A client after \<open>dispose\<close>: the flag is set and \<open>this.ws\<close> is null.\<close>

definition inert :: "'h WSClient \<Rightarrow> bool" where
  "inert c = (disposed c \<and> ws c = None)"

text \<open>
  Sample clients and runs: the options of the unit tests (tests/ws-client.test.ts), a
  platform whose sockets stay open when sent to and whose handlers do not throw, clients
  with the default queue size, with \<open>maxQueueSize\<close> 0 and with \<open>maxQueueSize\<close> 3, and two
  runs in which a second subscriber arrives while a reconnect is pending.
\<close>

definition default_options :: WSClientOptions where
  "default_options =
     \<lparr> opt_url = ''ws://localhost:9999/ws'', opt_maxAttempts = None, opt_maxBackoffMs = None,
       opt_maxQueueSize = None \<rparr>"

definition sample_env :: "(nat, string) env" where
  "sample_env = \<lparr> stringify = (\<lambda>m. m), xmit = (\<lambda>s d. OPEN), handler_throws = (\<lambda>h v. False) \<rparr>"

definition fresh_client :: "nat WSClient" where
  "fresh_client = new_WSClient default_options"

definition zero_queue_client :: "nat WSClient" where
  "zero_queue_client = new_WSClient (default_options\<lparr> opt_maxQueueSize := Some 0 \<rparr>)"

definition three_queue_client :: "nat WSClient" where
  "three_queue_client = new_WSClient (default_options\<lparr> opt_maxQueueSize := Some 3 \<rparr>)"

text \<open>
  A frame with a string \<open>type\<close> field and no dangerous key, and a run in which it arrives
  on the open socket of a client with two subscribers.
\<close>

definition clean_frame :: json where
  "clean_frame = JObj [(''type'', JStr ''x''), (''payload'', JNum 1)]"

definition clean_delivery :: "(nat, string) event list" where
  "clean_delivery = [Subscribe 1, Subscribe 2, SockOpen 0, SockMessage 0 (Some clean_frame)]"

definition late_subscriber :: "(nat, string) event list" where
  "late_subscriber = [Subscribe 1, SockClose 0 0.5, Subscribe 2, TimerFire 1]"

definition second_failure :: "(nat, string) event list" where
  "second_failure = [Subscribe 1, SockClose 0 0.5, Subscribe 2, SockClose 1 0.5]"

section \<open>Server (ws/server.ts)\<close>

text \<open>
  \<open>createHeartbeat\<close>, \<open>broadcast\<close> and \<open>createWSServer\<close>.  Line numbers are those of the source
  file that holds the version with admission control (unnamed/part_006).
\<close>

subsection \<open>Connections and the state of a server\<close>

text \<open>
  A server-side socket (\<open>AliveWebSocket\<close>): its \<open>readyState\<close>, the flag \<open>isAlive\<close> (undefined
  until the heartbeat's connection handler sets it), whether the heartbeat's \<open>pong\<close>
  listener is registered on it (\<open>ws.on('pong', ...)\<close>, line 54; a socket has none until the
  heartbeat's connection handler runs for it), the frames handed to its \<open>send\<close>, the
  number of \<open>ping\<close> calls, the code of a \<open>close\<close> call and whether \<open>terminate\<close> was called.
  \<open>cid\<close> is the identity of the object.
\<close>

record conn =
  cid :: nat
  cstate :: readyState
  isAlive :: "bool option"
  pongListener :: bool
  outbox :: "string list"
  pings :: nat
  closeCode :: "nat option"
  terminated :: bool

datatype warning =
  OriginRejected "string option"
  | VerifierRejected
  | LimitReached int
  | BroadcastTooLarge nat

text \<open>
  \<open>clients\<close> is the set \<open>wss.clients\<close>, \<open>intervalActive\<close> says whether the heartbeat interval
  is set, \<open>warnings\<close> logs \<open>console.warn\<close>, \<open>serializations\<close> counts the calls of
  \<open>JSON.stringify\<close> made by \<open>broadcast\<close>, and \<open>onConnectionCalls\<close> logs the sockets handed to
  the \<open>onConnection\<close> callback.
\<close>

record wss =
  clients :: "conn list"
  intervalActive :: bool
  warnings :: "warning list"
  serializations :: nat
  onConnectionCalls :: "nat list"

text \<open>The options of \<open>createWSServer\<close> that decide admission; \<open>'r\<close> is the raw request.\<close>

record 'r WSServerOptions =
  opt_maxConnections :: "int option"
  allowedOrigins :: "string list option"
  verifyClient :: "('r \<Rightarrow> bool) option"

definition maxConnections :: "'r WSServerOptions \<Rightarrow> int" where
  "maxConnections options = (case opt_maxConnections options of None \<Rightarrow> 100 | Some m \<Rightarrow> m)"

definition MAX_BROADCAST_SIZE :: nat where
  "MAX_BROADCAST_SIZE = 1 * 1024 * 1024"

subsection \<open>Heartbeat\<close>

text \<open>\<open>terminate()\<close> of a socket: nothing when it is closed, else it starts closing.\<close>

definition ws_terminate :: "conn \<Rightarrow> conn" where
  "ws_terminate c =
     (if cstate c = CLOSED then c else c\<lparr> cstate := CLOSING, terminated := True \<rparr>)"

text \<open>The body of the \<open>forEach\<close> of the interval callback (lines 43-48).\<close>

definition heartbeat_probe :: "conn \<Rightarrow> conn" where
  "heartbeat_probe c =
     (if isAlive c = Some False then ws_terminate c
      else c\<lparr> isAlive := Some False, pings := pings c + 1 \<rparr>)"

definition heartbeat_tick :: "wss \<Rightarrow> wss" where
  "heartbeat_tick s = s\<lparr> clients := map heartbeat_probe (clients s) \<rparr>"

text \<open>
  The connection handler of \<open>createHeartbeat\<close> (lines 51-55), run for the socket \<open>k\<close>: it
  sets the flag and registers the \<open>pong\<close> listener on that socket.
\<close>

definition heartbeat_on_connection :: "nat \<Rightarrow> wss \<Rightarrow> wss" where
  "heartbeat_on_connection k s =
     s\<lparr> clients := map (\<lambda>c. if cid c = k then c\<lparr> isAlive := Some True, pongListener := True \<rparr>
                             else c) (clients s) \<rparr>"

text \<open>
  A pong frame arrives on the socket \<open>k\<close>: the socket emits \<open>pong\<close>, and the listener of
  line 54 runs if it was registered on that socket; a socket without the listener is left
  as it is.
\<close>

definition on_pong :: "nat \<Rightarrow> wss \<Rightarrow> wss" where
  "on_pong k s =
     s\<lparr> clients := map (\<lambda>c. if cid c = k \<and> pongListener c then c\<lparr> isAlive := Some True \<rparr>
                             else c) (clients s) \<rparr>"

text \<open>
  \<open>createHeartbeat\<close> sets the interval and registers the connection handler on the server
  (for the connections to come: the sockets already in \<open>wss.clients\<close> are not touched); the
  function it returns clears the interval.
\<close>

definition createHeartbeat :: "wss \<Rightarrow> wss" where
  "createHeartbeat s = s\<lparr> intervalActive := True \<rparr>"

definition cleanupHeartbeat :: "wss \<Rightarrow> wss" where
  "cleanupHeartbeat s = s\<lparr> intervalActive := False \<rparr>"

subsection \<open>Broadcast\<close>

text \<open>
  A JavaScript string is a sequence of UTF-16 code units, and \<open>data.length\<close> is their
  number; the size of the frame that \<open>client.send(data)\<close> puts on the wire is the number of
  bytes of the UTF-8 encoding of the string.  In the model a \<open>char\<close> of a string stands for
  one code unit, which covers the code units below 256: a code unit below 128 takes one
  byte in UTF-8, the others take two.
\<close>

definition utf8_bytes :: "char \<Rightarrow> nat" where
  "utf8_bytes c = (if (of_char c :: nat) < 128 then 1 else 2)"

definition utf8_size :: "string \<Rightarrow> nat" where
  "utf8_size data = sum_list (map utf8_bytes data)"

text \<open>
  \<open>broadcast\<close> (lines 64-75).  \<open>serialize\<close> stands for \<open>JSON.stringify\<close>; the test of
  line 66 compares \<open>data.length\<close>, the number of code units, with the limit.
\<close>

definition broadcast :: "('m \<Rightarrow> string) \<Rightarrow> wss \<Rightarrow> 'm \<Rightarrow> wss" where
  "broadcast serialize s message =
     (let data = serialize message;
          s1 = s\<lparr> serializations := serializations s + 1 \<rparr>
      in if length data > MAX_BROADCAST_SIZE
         then s1\<lparr> warnings := warnings s1 @ [BroadcastTooLarge (length data)] \<rparr>
         else s1\<lparr> clients :=
                    map (\<lambda>client. if cstate client = OPEN
                                   then client\<lparr> outbox := outbox client @ [data] \<rparr>
                                   else client)
                        (clients s1) \<rparr>)"

subsection \<open>Admission\<close>

text \<open>
  The function installed as \<open>wssOptions.verifyClient\<close> (lines 104-116): the decision and
  the warnings it logs.  \<open>info.origin\<close> is \<open>None\<close> when the request has no Origin header.
\<close>

definition wss_verifyClient ::
  "'r WSServerOptions \<Rightarrow> string option \<Rightarrow> 'r \<Rightarrow> bool \<times> warning list" where
  "wss_verifyClient options origin req =
     (if (case allowedOrigins options of
            None \<Rightarrow> False
          | Some os \<Rightarrow> length os > 0 \<and>
                       \<not> (case origin of None \<Rightarrow> False | Some orig \<Rightarrow> orig \<in> set os))
      then (False, [OriginRejected origin])
      else if (case verifyClient options of None \<Rightarrow> False | Some v \<Rightarrow> \<not> v req)
      then (False, [VerifierRejected])
      else (True, []))"

text \<open>
  The handshake as far as the server's options decide it: the verifier is installed only
  when one of the two options is set (line 103; an array, even an empty one, is truthy),
  and a server without a verifier accepts.
\<close>

definition admits :: "'r WSServerOptions \<Rightarrow> string option \<Rightarrow> 'r \<Rightarrow> bool" where
  "admits options origin req =
     (if allowedOrigins options \<noteq> None \<or> verifyClient options \<noteq> None
      then fst (wss_verifyClient options origin req)
      else True)"

subsection \<open>Connection handler and events of a server\<close>

text \<open>\<open>ws.close(code, reason)\<close>: an open socket starts closing with that code.\<close>

definition ws_close :: "nat \<Rightarrow> conn \<Rightarrow> conn" where
  "ws_close code c =
     (if cstate c = OPEN then c\<lparr> cstate := CLOSING, closeCode := Some code \<rparr> else c)"

text \<open>The connection handler of \<open>createWSServer\<close> (lines 123-144) for the socket \<open>k\<close>.\<close>

definition on_connection :: "'r WSServerOptions \<Rightarrow> nat \<Rightarrow> wss \<Rightarrow> wss" where
  "on_connection options k s =
     (if maxConnections options > 0 \<and> int (length (clients s)) > maxConnections options
      then s\<lparr> warnings := warnings s @ [LimitReached (maxConnections options)],
              clients := map (\<lambda>c. if cid c = k then ws_close 1013 c else c) (clients s) \<rparr>
      else s\<lparr> onConnectionCalls := onConnectionCalls s @ [k] \<rparr>)"

text \<open>
  The \<open>message\<close> handler the connection handler registers on an admitted socket (lines
  133-139): the values handed to the \<open>onMessage\<close> callback.  \<open>has_onMessage\<close> says whether
  the option is set, and \<open>parsed\<close> is the outcome of \<open>JSON.parse(String(raw))\<close>; the
  \<open>try\<close> swallows a failed parse and whatever the callback throws.
\<close>

definition ws_on_message :: "bool \<Rightarrow> json option \<Rightarrow> json list" where
  "ws_on_message has_onMessage parsed =
     (if \<not> has_onMessage then []
      else (case parsed of None \<Rightarrow> [] | Some v \<Rightarrow> [sanitizeJson v]))"

definition new_conn :: "nat \<Rightarrow> conn" where
  "new_conn k =
     \<lparr> cid = k, cstate = OPEN, isAlive = None, pongListener = False, outbox = [], pings = 0,
       closeCode = None, terminated = False \<rparr>"

text \<open>
  A completed upgrade: the library adds the new socket to \<open>wss.clients\<close> and emits
  \<open>connection\<close>; the heartbeat's handler was registered first (line 121), then the
  server's own (line 123).
\<close>

definition accept_connection :: "'r WSServerOptions \<Rightarrow> nat \<Rightarrow> wss \<Rightarrow> wss" where
  "accept_connection options k s =
     on_connection options k
       (heartbeat_on_connection k (s\<lparr> clients := clients s @ [new_conn k] \<rparr>))"

text \<open>
  A handshake: the library calls the installed verifier before the upgrade; when it returns
  false the request is answered with an error and no socket is created, otherwise the
  upgrade completes and the connection is registered.
\<close>

definition handshake :: "'r WSServerOptions \<Rightarrow> string option \<Rightarrow> 'r \<Rightarrow> nat \<Rightarrow> wss \<Rightarrow> wss" where
  "handshake options origin req k s =
     (if allowedOrigins options \<noteq> None \<or> verifyClient options \<noteq> None
      then (if fst (wss_verifyClient options origin req)
            then accept_connection options k s
            else s\<lparr> warnings := warnings s @ snd (wss_verifyClient options origin req) \<rparr>)
      else accept_connection options k s)"

text \<open>The server \<open>createWSServer\<close> returns: no client yet, the heartbeat running.\<close>

definition createWSServer :: wss where
  "createWSServer =
     createHeartbeat \<lparr> clients = [], intervalActive = False, warnings = [],
                       serializations = 0, onConnectionCalls = [] \<rparr>"

text \<open>
  Turns of the server's event loop: an admitted connection, a pong, a tick of the
  heartbeat interval (it fires only while the interval is set), the close of a socket
  (the library removes it from \<open>wss.clients\<close>), a call of \<open>broadcast\<close>, and the function
  returned by \<open>createHeartbeat\<close>.
\<close>

datatype 'm server_event =
  Connection nat
  | Pong nat
  | Tick
  | Closed nat
  | Broadcast 'm
  | Cleanup

definition server_step ::
  "('m \<Rightarrow> string) \<Rightarrow> 'r WSServerOptions \<Rightarrow> wss \<Rightarrow> 'm server_event \<Rightarrow> wss" where
  "server_step serialize options s ev =
     (case ev of
        Connection k \<Rightarrow>
          if k \<in> set (map cid (clients s)) then s else accept_connection options k s
      | Pong k \<Rightarrow> on_pong k s
      | Tick \<Rightarrow> if intervalActive s then heartbeat_tick s else s
      | Closed k \<Rightarrow> s\<lparr> clients := filter (\<lambda>c. cid c \<noteq> k) (clients s) \<rparr>
      | Broadcast m \<Rightarrow> broadcast serialize s m
      | Cleanup \<Rightarrow> cleanupHeartbeat s)"

definition server_run ::
  "('m \<Rightarrow> string) \<Rightarrow> 'r WSServerOptions \<Rightarrow> wss \<Rightarrow> 'm server_event list \<Rightarrow> wss" where
  "server_run serialize options s evs = foldl (server_step serialize options) s evs"

subsection \<open>Predicates and sample servers used in the statements\<close>

text \<open>No tracked connection with identity \<open>k\<close> is open.\<close>

definition not_open :: "nat \<Rightarrow> wss \<Rightarrow> bool" where
  "not_open k s = (\<forall>c \<in> set (clients s). cid c = k \<longrightarrow> cstate c \<noteq> OPEN)"

text \<open>
  For the heartbeat: the interval is set and \<open>k\<close> is a tracked connection that is not closed;
  every connection \<open>k\<close> has its flag cleared; every connection \<open>k\<close> was terminated; and an
  event that is neither a pong of \<open>k\<close>, nor the close of \<open>k\<close>, nor the cleanup.
\<close>

definition hb_tracked :: "nat \<Rightarrow> wss \<Rightarrow> bool" where
  "hb_tracked k s =
     (intervalActive s \<and> k \<in> cid ` set (clients s)
      \<and> (\<forall>c \<in> set (clients s). cid c = k \<longrightarrow> cstate c \<noteq> CLOSED))"

definition hb_unanswered :: "nat \<Rightarrow> wss \<Rightarrow> bool" where
  "hb_unanswered k s = (\<forall>c \<in> set (clients s). cid c = k \<longrightarrow> isAlive c = Some False)"

definition hb_terminated :: "nat \<Rightarrow> wss \<Rightarrow> bool" where
  "hb_terminated k s =
     (\<forall>c \<in> set (clients s). cid c = k \<longrightarrow> terminated c \<and> cstate c = CLOSING)"

definition hb_silent :: "nat \<Rightarrow> 'm server_event \<Rightarrow> bool" where
  "hb_silent k ev = (ev \<noteq> Pong k \<and> ev \<noteq> Closed k \<and> ev \<noteq> Cleanup)"

text \<open>
  Sample configurations: an allowlist with one origin (as in the security test), a limit
  of two connections (as in the security test), a server with two open clients and one
  that is closing, the server after two admitted connections, and a run in which
  connection 0 answers no probe.
\<close>

definition opts_a :: "unit WSServerOptions" where
  "opts_a = \<lparr> opt_maxConnections = None, allowedOrigins = Some [''http://a''], verifyClient = None \<rparr>"

definition opts2 :: "unit WSServerOptions" where
  "opts2 = \<lparr> opt_maxConnections = Some 2, allowedOrigins = None, verifyClient = None \<rparr>"

definition three_conns :: wss where
  "three_conns =
     createWSServer\<lparr> clients :=
       [(new_conn 0)\<lparr> isAlive := Some True, pongListener := True \<rparr>,
        (new_conn 1)\<lparr> isAlive := Some True, pongListener := True, cstate := CLOSING \<rparr>,
        (new_conn 2)\<lparr> isAlive := Some True, pongListener := True \<rparr>] \<rparr>"

definition two_open :: wss where
  "two_open = server_run (\<lambda>m. m) opts2 createWSServer [Connection 0, Connection 1]"

text \<open>
  Two serializers for the statements about \<open>broadcast\<close>: a message \<open>n\<close> is serialized to
  \<open>n\<close> letters x (one byte each in UTF-8), or to \<open>n\<close> letters e with an acute accent
  (code unit 233, two bytes in UTF-8).
\<close>

definition plain_text :: "nat \<Rightarrow> string" where
  "plain_text n = replicate n CHR ''x''"

definition accented_text :: "nat \<Rightarrow> string" where
  "accented_text n = replicate n (CHR 0xE9)"

definition silent_run :: "string server_event list" where
  "silent_run = [Tick, Pong 1, Broadcast ''x'', Tick, Connection 2]"

text \<open>
  A server that tracks one open connection and has no heartbeat yet, as \<open>createHeartbeat\<close>
  may be handed, and a run in which that connection answers the first probe.
\<close>

definition existing_server :: wss where
  "existing_server =
     \<lparr> clients = [new_conn 0], intervalActive = False, warnings = [], serializations = 0,
       onConnectionCalls = [] \<rparr>"

definition answered_run :: "string server_event list" where
  "answered_run = [Tick, Pong 0]"

section \<open>Properties of the sanitizer\<close>

lemma map_of_sanitized:
  "map_of (map (\<lambda>(k, v). (k, f v)) (filter (\<lambda>(k, v). P k) kvs)) k =
     (if P k then map_option f (map_of kvs k) else None)"
  by (induction kvs) auto

lemma sanitize_no_dangerous: "\<not> has_dangerous_key (sanitizeJson v)"
  by (induction v rule: sanitizeJson.induct) (auto simp: list_ex_iff)

lemma sanitize_clean_id: "\<not> has_dangerous_key v \<Longrightarrow> sanitizeJson v = v"
proof (induction v rule: sanitizeJson.induct)
  case (1 xs)
  then show ?case by (auto simp: list_ex_iff intro: map_idI)
next
  case (2 kvs)
  have f: "filter (\<lambda>(k, v). k \<notin> set DANGEROUS_KEYS) kvs = kvs"
    using 2(2) by (auto simp: list_ex_iff intro!: filter_True)
  have "map (\<lambda>(k, v). (k, sanitizeJson v)) kvs = kvs"
    using 2 f by (intro map_idI) (auto simp: list_ex_iff)
  with f show ?case by simp
qed simp_all

lemma at_path_sanitize:
  "set (path_keys p) \<inter> set DANGEROUS_KEYS = {} \<Longrightarrow>
     at_path (sanitizeJson v) p = map_option sanitizeJson (at_path v p)"
proof (induction v p rule: at_path.induct)
  case (2 kvs k p)
  then show ?case
    by (cases "map_of kvs k") (auto simp: map_of_sanitized)
qed auto

lemma at_path_dangerous:
  "set (path_keys p) \<inter> set DANGEROUS_KEYS \<noteq> {} \<Longrightarrow> at_path (sanitizeJson v) p = None"
proof (induction v p rule: at_path.induct)
  case (2 kvs k p)
  show ?case
  proof (cases "k \<in> set DANGEROUS_KEYS")
    case True
    then show ?thesis by (simp add: map_of_sanitized)
  next
    case False
    with 2(2) have "set (path_keys p) \<inter> set DANGEROUS_KEYS \<noteq> {}" by simp
    with 2(1) False show ?thesis
      by (cases "map_of kvs k") (simp_all add: map_of_sanitized)
  qed
qed auto

lemma stripped_elems_map:
  "(\<And>x. x \<in> set xs \<Longrightarrow> stripped x (f x)) \<Longrightarrow> stripped_elems xs (map f xs)"
  by (induction xs) simp_all

lemma stripped_props_map:
  "\<forall>(k, v) \<in> set kvs. k \<notin> set DANGEROUS_KEYS \<longrightarrow> stripped v (f v) \<Longrightarrow>
     stripped_props kvs (map (\<lambda>(k, v). (k, f v)) (filter (\<lambda>(k, v). k \<notin> set DANGEROUS_KEYS) kvs))"
proof (induction kvs)
  case Nil
  show ?case by simp
next
  case (Cons a kvs)
  obtain k v where a: "a = (k, v)" by (cases a)
  from Cons.prems have rest: "\<forall>(k, v) \<in> set kvs. k \<notin> set DANGEROUS_KEYS \<longrightarrow> stripped v (f v)"
    by simp
  from Cons.prems a have hd: "k \<notin> set DANGEROUS_KEYS \<longrightarrow> stripped v (f v)" by simp
  from Cons.IH [OF rest] hd a show ?case by simp
qed

lemma stripped_sanitize: "stripped v (sanitizeJson v)"
proof (induction v rule: sanitizeJson.induct)
  case (1 xs)
  then show ?case by (simp add: stripped_elems_map)
next
  case (2 kvs)
  have "stripped_props kvs (map (\<lambda>(k, v). (k, sanitizeJson v))
      (filter (\<lambda>(k, v). k \<notin> set DANGEROUS_KEYS) kvs))"
    by (rule stripped_props_map) (use 2 in auto)
  then show ?case by simp
qed simp_all

lemma stripped_elems_unique:
  "(\<And>x y. x \<in> set xs \<Longrightarrow> stripped x y \<Longrightarrow> y = f x) \<Longrightarrow> stripped_elems xs ys \<Longrightarrow>
     ys = map f xs"
proof (induction xs arbitrary: ys)
  case Nil
  then show ?case by simp
next
  case (Cons x xs)
  then show ?case by (cases ys) auto
qed

lemma stripped_props_unique:
  "(\<And>k v y. (k, v) \<in> set kvs \<Longrightarrow> k \<notin> set DANGEROUS_KEYS \<Longrightarrow> stripped v y \<Longrightarrow> y = f v) \<Longrightarrow>
     stripped_props kvs kvs' \<Longrightarrow>
     kvs' = map (\<lambda>(k, v). (k, f v)) (filter (\<lambda>(k, v). k \<notin> set DANGEROUS_KEYS) kvs)"
proof (induction kvs arbitrary: kvs')
  case Nil
  then show ?case by simp
next
  case (Cons a kvs)
  obtain k v where a: "a = (k, v)" by (cases a)
  show ?case
  proof (cases "k \<in> set DANGEROUS_KEYS")
    case True
    with Cons a show ?thesis by auto
  next
    case False
    with Cons.prems(2) a obtain k' v' r where r: "kvs' = (k', v') # r" "k' = k" "stripped v v'"
        "stripped_props kvs r"
      by (cases kvs') auto
    from Cons.prems(1) [of k v v'] a False r(3) have "v' = f v" by simp
    moreover from Cons.IH [of r] Cons.prems(1) r(4)
    have "r = map (\<lambda>(k, v). (k, f v)) (filter (\<lambda>(k, v). k \<notin> set DANGEROUS_KEYS) kvs)"
      by auto
    ultimately show ?thesis using a False r by simp
  qed
qed

lemma stripped_unique: "stripped v w \<Longrightarrow> w = sanitizeJson v"
proof (induction v arbitrary: w rule: sanitizeJson.induct)
  case (1 xs)
  from 1(2) obtain ys where w: "w = JArr ys" "stripped_elems xs ys" by (cases w) auto
  from stripped_elems_unique [of xs sanitizeJson ys] 1(1) w(2) have "ys = map sanitizeJson xs"
    by blast
  with w show ?case by simp
next
  case (2 kvs)
  from 2(2) obtain kvs' where w: "w = JObj kvs'" "stripped_props kvs kvs'" by (cases w) auto
  have "kvs' = map (\<lambda>(k, v). (k, sanitizeJson v)) (filter (\<lambda>(k, v). k \<notin> set DANGEROUS_KEYS) kvs)"
  proof (rule stripped_props_unique [OF _ w(2)])
    fix k v y
    assume "(k, v) \<in> set kvs" "k \<notin> set DANGEROUS_KEYS" "stripped v y"
    with 2(1) [of "(k, v)" k v y] show "y = sanitizeJson v" by simp
  qed
  with w show ?case by simp
qed simp_all

lemma at_path_leaf:
  assumes "set (path_keys p) \<inter> set DANGEROUS_KEYS = {}" and "at_path v p = Some u" and "is_leaf u"
  shows "at_path (sanitizeJson v) p = Some u"
proof -
  from assms(3) have "sanitizeJson u = u" by (cases u) simp_all
  with at_path_sanitize [OF assms(1), of v] assms(2) show ?thesis by simp
qed

text \<open>
  C8.  For every JSON value \<open>v\<close>, the sanitized value is related to \<open>v\<close> as the claim says
  (identical structure, the three names left out of every object, everything else kept),
  and it is the only value so related.  It has none of the keys \<open>__proto__\<close>,
  \<open>constructor\<close>, \<open>prototype\<close> at any nesting level; a value without such keys is returned
  unchanged; along every path that goes through none of the three names the sanitized
  value holds the sanitized original, and a value there that is neither an array nor an
  object is the original one; a path through one of the three names leads nowhere in the
  result.  The call allocates its result in a new cell of the store: the cell of the input
  and every other cell are as before, and so is the shared prototype object.  The server
  hands its \<open>onMessage\<close> callback nothing but sanitized values.
\<close>

theorem sanitizeJson_strips_dangerous_keys:
  "stripped v (sanitizeJson v)
   \<and> (stripped v w \<longrightarrow> w = sanitizeJson v)
   \<and> \<not> has_dangerous_key (sanitizeJson v)
   \<and> (\<not> has_dangerous_key v \<longrightarrow> sanitizeJson v = v)
   \<and> (set (path_keys p) \<inter> set DANGEROUS_KEYS = {} \<longrightarrow>
        at_path (sanitizeJson v) p = map_option sanitizeJson (at_path v p))
   \<and> (set (path_keys p) \<inter> set DANGEROUS_KEYS = {} \<and> at_path v p = Some u \<and> is_leaf u \<longrightarrow>
        at_path (sanitizeJson v) p = Some u)
   \<and> (set (path_keys p) \<inter> set DANGEROUS_KEYS \<noteq> {} \<longrightarrow> at_path (sanitizeJson v) p = None)
   \<and> (a < length (cells h) \<longrightarrow>
        length (cells h) \<le> fst (sanitizeJson_call a h)
        \<and> cells (snd (sanitizeJson_call a h)) ! fst (sanitizeJson_call a h) =
            sanitizeJson (cells h ! a)
        \<and> take (length (cells h)) (cells (snd (sanitizeJson_call a h))) = cells h
        \<and> cells (snd (sanitizeJson_call a h)) ! a = cells h ! a
        \<and> length (cells (snd (sanitizeJson_call a h))) = length (cells h) + 1
        \<and> object_prototype (snd (sanitizeJson_call a h)) = object_prototype h)
   \<and> (\<forall>x \<in> set (ws_on_message has_onMessage parsed).
        \<exists>v'. parsed = Some v' \<and> x = sanitizeJson v' \<and> \<not> has_dangerous_key x)"
proof -
  have store: "a < length (cells h) \<longrightarrow>
        length (cells h) \<le> fst (sanitizeJson_call a h)
        \<and> cells (snd (sanitizeJson_call a h)) ! fst (sanitizeJson_call a h) =
            sanitizeJson (cells h ! a)
        \<and> take (length (cells h)) (cells (snd (sanitizeJson_call a h))) = cells h
        \<and> cells (snd (sanitizeJson_call a h)) ! a = cells h ! a
        \<and> length (cells (snd (sanitizeJson_call a h))) = length (cells h) + 1
        \<and> object_prototype (snd (sanitizeJson_call a h)) = object_prototype h"
    by (simp add: sanitizeJson_call_def nth_append)
  have handler: "\<forall>x \<in> set (ws_on_message has_onMessage parsed).
        \<exists>v'. parsed = Some v' \<and> x = sanitizeJson v' \<and> \<not> has_dangerous_key x"
    by (cases parsed) (simp_all add: ws_on_message_def sanitize_no_dangerous)
  have rel: "stripped v (sanitizeJson v)" by (rule stripped_sanitize)
  have uniq: "stripped v w \<longrightarrow> w = sanitizeJson v" using stripped_unique by blast
  have none: "\<not> has_dangerous_key (sanitizeJson v)" by (rule sanitize_no_dangerous)
  have ident: "\<not> has_dangerous_key v \<longrightarrow> sanitizeJson v = v" using sanitize_clean_id by blast
  have path: "set (path_keys p) \<inter> set DANGEROUS_KEYS = {} \<longrightarrow>
        at_path (sanitizeJson v) p = map_option sanitizeJson (at_path v p)"
    using at_path_sanitize by blast
  have leaf: "set (path_keys p) \<inter> set DANGEROUS_KEYS = {} \<and> at_path v p = Some u \<and> is_leaf u \<longrightarrow>
        at_path (sanitizeJson v) p = Some u"
    using at_path_leaf by blast
  have gone: "set (path_keys p) \<inter> set DANGEROUS_KEYS \<noteq> {} \<longrightarrow> at_path (sanitizeJson v) p = None"
    using at_path_dangerous by blast
  show ?thesis by (intro conjI rel uniq none ident path leaf gone store handler)
qed

theorem sanitizeJson_strips_dangerous_keys_witness:
  "stripped test_message test_message_clean
   \<and> sanitizeJson test_message = test_message_clean
   \<and> stripped (JObj [(''__proto__'', JNull), (''constructor'', JNull)]) (JObj [])
   \<and> sanitizeJson (JObj [(''__proto__'', JNull), (''constructor'', JNull)]) = JObj []
   \<and> \<not> has_dangerous_key (sanitizeJson test_message)
   \<and> \<not> has_dangerous_key test_message_clean
   \<and> sanitizeJson test_message_clean = test_message_clean
   \<and> at_path test_message [Key ''data'', Key ''nested''] = Some (JBool True)
   \<and> at_path (sanitizeJson test_message) [Key ''data'', Key ''nested''] = Some (JBool True)
   \<and> at_path test_message [Key ''data'', Key ''__proto__'', Key ''evil''] = Some (JBool True)
   \<and> at_path (sanitizeJson test_message) [Key ''data'', Key ''__proto__'', Key ''evil''] = None
   \<and> sanitizeJson_call 1 test_store =
       (2, \<lparr> object_prototype = [], cells = [JNull, test_message, test_message_clean] \<rparr>)
   \<and> ws_on_message True (Some test_message) = [test_message_clean]"
proof -
  note A = sanitizeJson_strips_dangerous_keys
    [of test_message test_message_clean "[Key ''data'', Key ''nested'']" "JBool True" 1
      test_store True "Some test_message"]
  note B = sanitizeJson_strips_dangerous_keys
    [of "JObj [(''__proto__'', JNull), (''constructor'', JNull)]" "JObj []" "[]" JNull 1
      test_store True None]
  note C = sanitizeJson_strips_dangerous_keys
    [of test_message_clean test_message_clean
      "[Key ''data'', Key ''__proto__'', Key ''evil'']" JNull 1 test_store True None]
  note D = sanitizeJson_strips_dangerous_keys
    [of test_message test_message_clean
      "[Key ''data'', Key ''__proto__'', Key ''evil'']" JNull 1 test_store True None]
  have r1: "stripped test_message test_message_clean"
    by (simp add: test_message_def test_message_clean_def DANGEROUS_KEYS_def)
  have r2: "stripped (JObj [(''__proto__'', JNull), (''constructor'', JNull)]) (JObj [])"
    by (simp add: DANGEROUS_KEYS_def)
  have cl: "\<not> has_dangerous_key test_message_clean"
    by (simp add: test_message_clean_def DANGEROUS_KEYS_def)
  have p1: "set (path_keys [Key ''data'', Key ''nested'']) \<inter> set DANGEROUS_KEYS = {}"
    and p2: "set (path_keys [Key ''data'', Key ''__proto__'', Key ''evil'']) \<inter> set DANGEROUS_KEYS \<noteq> {}"
    by (simp_all add: DANGEROUS_KEYS_def)
  have l1: "at_path test_message [Key ''data'', Key ''nested''] = Some (JBool True)"
    and l2: "at_path test_message [Key ''data'', Key ''__proto__'', Key ''evil''] = Some (JBool True)"
    by (simp_all add: test_message_def)
  have ad: "(1::nat) < length (cells test_store)" by (simp add: test_store_def)
  from A [THEN conjunct2, THEN conjunct1] r1 have "test_message_clean = sanitizeJson test_message"
    by (rule mp)
  then have e1: "sanitizeJson test_message = test_message_clean" by (rule sym)
  from B [THEN conjunct2, THEN conjunct1] r2
  have "JObj [] = sanitizeJson (JObj [(''__proto__'', JNull), (''constructor'', JNull)])"
    by (rule mp)
  then have e2: "sanitizeJson (JObj [(''__proto__'', JNull), (''constructor'', JNull)]) = JObj []"
    by (rule sym)
  note n1 = A [THEN conjunct2, THEN conjunct2, THEN conjunct1]
  from C [THEN conjunct2, THEN conjunct2, THEN conjunct2, THEN conjunct1] cl
  have e3: "sanitizeJson test_message_clean = test_message_clean"
    by (rule mp)
  have lf: "is_leaf (JBool True)" by simp
  from p1 l1 lf
  have "set (path_keys [Key ''data'', Key ''nested'']) \<inter> set DANGEROUS_KEYS = {}
      \<and> at_path test_message [Key ''data'', Key ''nested''] = Some (JBool True)
      \<and> is_leaf (JBool True)"
    by (intro conjI)
  with A [THEN conjunct2, THEN conjunct2, THEN conjunct2, THEN conjunct2, THEN conjunct2, THEN conjunct1]
  have e4: "at_path (sanitizeJson test_message) [Key ''data'', Key ''nested''] = Some (JBool True)"
    by (rule mp)
  from D [THEN conjunct2, THEN conjunct2, THEN conjunct2, THEN conjunct2, THEN conjunct2, THEN conjunct2, THEN conjunct1] p2
  have e5: "at_path (sanitizeJson test_message) [Key ''data'', Key ''__proto__'', Key ''evil''] = None"
    by (rule mp)
  from A [THEN conjunct2, THEN conjunct2, THEN conjunct2, THEN conjunct2, THEN conjunct2, THEN conjunct2, THEN conjunct2, THEN conjunct1] ad
  have st: "length (cells test_store) \<le> fst (sanitizeJson_call 1 test_store)
        \<and> cells (snd (sanitizeJson_call 1 test_store)) ! fst (sanitizeJson_call 1 test_store) =
            sanitizeJson (cells test_store ! 1)
        \<and> take (length (cells test_store)) (cells (snd (sanitizeJson_call 1 test_store))) =
            cells test_store
        \<and> cells (snd (sanitizeJson_call 1 test_store)) ! 1 = cells test_store ! 1
        \<and> length (cells (snd (sanitizeJson_call 1 test_store))) = length (cells test_store) + 1
        \<and> object_prototype (snd (sanitizeJson_call 1 test_store)) = object_prototype test_store"
    by (rule mp)
  have e6: "sanitizeJson_call 1 test_store =
       (2, \<lparr> object_prototype = [], cells = [JNull, test_message, test_message_clean] \<rparr>)"
    using e1 by (simp add: sanitizeJson_call_def test_store_def)
  have e7: "ws_on_message True (Some test_message) = [test_message_clean]"
    using e1 by (simp add: ws_on_message_def)
  from r1 e1 r2 e2 n1 cl e3 l1 e4 l2 e5 e6 e7 show ?thesis by (intro conjI)
qed

section \<open>Inbound frames of the client\<close>

lemma onmessage_guard: "\<not> well_formed raw \<Longrightarrow> onmessage throws fns (Some raw) = []"
  by (cases raw) (auto simp: onmessage_def well_formed_def split: option.splits json.splits)

lemma onmessage_own_key:
  "k \<in> set DANGEROUS_KEYS \<Longrightarrow> k \<in> fst ` set kvs \<Longrightarrow> onmessage throws fns (Some (JObj kvs)) = []"
proof -
  assume k: "k \<in> set DANGEROUS_KEYS" and own: "k \<in> fst ` set kvs"
  from own have "js_in k kvs" by (simp add: js_in_def)
  with k have "js_in ''__proto__'' kvs \<or> js_in ''constructor'' kvs \<or> js_in ''prototype'' kvs"
    by (auto simp: DANGEROUS_KEYS_def)
  then show ?thesis by (simp add: onmessage_def)
qed

text \<open>
  The handler looks the three names up with \<open>in\<close>, which also finds what an object
  inherits, and every object inherits \<open>constructor\<close>: no frame gets past the second guard,
  and no subscriber is ever called.
\<close>

lemma onmessage_never_delivers: "onmessage throws fns e_data = []"
  by (auto simp: onmessage_def js_in_def OBJECT_PROTOTYPE_KEYS_def
      split: option.splits json.splits)

text \<open>
  C1.  Two subscribers are registered and the socket is open.  A frame arrives that parses
  to an object with a string \<open>type\<close> field and none of the three names among its keys, at
  any depth.  The claim has it delivered to both subscribers; the handler calls neither, because
  \<open>'constructor' in raw\<close> (line 114) is true of every object, and the \<open>forEach\<close> of line 115
  is never reached.
\<close>

theorem onmessage_drops_clean_frame:
  "well_formed clean_frame
   \<and> \<not> has_dangerous_key clean_frame
   \<and> listeners (run sample_env fresh_client clean_delivery) = [1, 2]
   \<and> map readyState (sockets (run sample_env fresh_client clean_delivery)) = [OPEN]
   \<and> delivered (run sample_env fresh_client clean_delivery) = []"
  by (simp add: clean_frame_def clean_delivery_def well_formed_def onmessage_def js_in_def
      OBJECT_PROTOTYPE_KEYS_def DANGEROUS_KEYS_def run_def step_def sample_env_def
      fresh_client_def new_WSClient_def default_options_def subscribe_def ensureConnection_def
      connect_def ws_readyState_def set_readyState_def onopen_def flushQueue.simps)

section \<open>Admission by origin\<close>

lemma handshake_admits:
  "handshake options origin req k s =
     (if admits options origin req then accept_connection options k s
      else s\<lparr> warnings := warnings s @ snd (wss_verifyClient options origin req) \<rparr>)"
  by (simp add: handshake_def admits_def)

text \<open>
  C6, as amended.  With a non-empty origin allowlist, a handshake whose Origin is not an
  exact member of the list (or is absent) is rejected by the verifier, before the upgrade:
  a warning is logged and no connection is registered, so none is ever open.  A handshake
  whose Origin is a member passes the origin check, and is then accepted unless a
  configured custom verifier returns false; with the allowlist unset or empty, every
  origin is accepted unless a configured custom verifier returns false.  An accepted
  handshake registers the connection.
\<close>

theorem admits_origin_allowlist:
  "(allowedOrigins options = Some os \<and> os \<noteq> [] \<and> origin \<notin> Some ` set os \<longrightarrow>
      \<not> admits options origin req
      \<and> clients (handshake options origin req k s) = clients s
      \<and> warnings (handshake options origin req k s) = warnings s @ [OriginRejected origin])
   \<and> (allowedOrigins options = Some os \<and> origin = Some orig \<and> orig \<in> set os \<longrightarrow>
      admits options origin req = (case verifyClient options of None \<Rightarrow> True | Some v \<Rightarrow> v req))
   \<and> (allowedOrigins options = None \<or> allowedOrigins options = Some [] \<longrightarrow>
      admits options origin req = (case verifyClient options of None \<Rightarrow> True | Some v \<Rightarrow> v req))
   \<and> (admits options origin req \<longrightarrow>
      handshake options origin req k s = accept_connection options k s)"
  by (auto simp: handshake_admits admits_def wss_verifyClient_def split: option.splits)

theorem admits_origin_allowlist_witness:
  "\<not> admits opts_a (Some ''http://evil'') ()
   \<and> clients (handshake opts_a (Some ''http://evil'') () 0 createWSServer) = []
   \<and> \<not> admits opts_a None ()
   \<and> admits opts_a (Some ''http://a'') ()
   \<and> map cstate (clients (handshake opts_a (Some ''http://a'') () 0 createWSServer)) = [OPEN]
   \<and> admits (opts_a\<lparr> allowedOrigins := None \<rparr>) (Some ''http://evil'') ()
   \<and> \<not> admits (opts_a\<lparr> allowedOrigins := None, verifyClient := Some (\<lambda>r. False) \<rparr>) (Some ''http://a'') ()"
proof -
  have c0: "clients createWSServer = []" by (simp add: createWSServer_def createHeartbeat_def)
  have acc: "map cstate (clients (accept_connection opts_a 0 createWSServer)) = [OPEN]"
    by (simp add: accept_connection_def on_connection_def heartbeat_on_connection_def
        new_conn_def maxConnections_def opts_a_def createWSServer_def createHeartbeat_def)
  note A = admits_origin_allowlist [of opts_a "[''http://a'']" "Some ''http://evil''" "()" 0
      createWSServer "''http://a''"]
  note B = admits_origin_allowlist [of opts_a "[''http://a'']" "None" "()" 0
      createWSServer "''http://a''"]
  note C = admits_origin_allowlist [of opts_a "[''http://a'']" "Some ''http://a''" "()" 0
      createWSServer "''http://a''"]
  note D = admits_origin_allowlist [of "opts_a\<lparr> allowedOrigins := None \<rparr>" "[]"
      "Some ''http://evil''" "()" 0 createWSServer "''http://a''"]
  note E = admits_origin_allowlist
      [of "opts_a\<lparr> allowedOrigins := None, verifyClient := Some (\<lambda>r. False) \<rparr>" "[]"
        "Some ''http://a''" "()" 0 createWSServer "''http://a''"]
  from A c0 have a: "\<not> admits opts_a (Some ''http://evil'') ()
      \<and> clients (handshake opts_a (Some ''http://evil'') () 0 createWSServer) = []"
    by (simp add: opts_a_def)
  from B have b: "\<not> admits opts_a None ()" by (simp add: opts_a_def)
  from C have c: "admits opts_a (Some ''http://a'') ()" by (simp add: opts_a_def)
  from C c acc have c': "map cstate (clients (handshake opts_a (Some ''http://a'') () 0 createWSServer)) = [OPEN]"
    by simp
  from D have d: "admits (opts_a\<lparr> allowedOrigins := None \<rparr>) (Some ''http://evil'') ()"
    by (simp add: opts_a_def)
  from E have e: "\<not> admits (opts_a\<lparr> allowedOrigins := None, verifyClient := Some (\<lambda>r. False) \<rparr>)
      (Some ''http://a'') ()"
    by (simp add: opts_a_def)
  from a b c c' d e show ?thesis by simp
qed

text \<open>
  C6 as stated fails: the origin check is skipped for an allowlist that is configured but
  empty (line 105), so a handshake from an origin that is not a member is accepted.
\<close>

theorem admits_empty_allowlist_counterexample:
  "allowedOrigins (opts_a\<lparr> allowedOrigins := Some [] \<rparr>) = Some []
   \<and> ''http://evil'' \<notin> set []
   \<and> admits (opts_a\<lparr> allowedOrigins := Some [] \<rparr>) (Some ''http://evil'') ()"
  by (simp add: opts_a_def admits_def wss_verifyClient_def)

section \<open>Broadcast\<close>

lemma length_le_utf8_size: "length data \<le> utf8_size data"
  by (induction data) (simp_all add: utf8_size_def utf8_bytes_def)

lemma utf8_size_replicate: "utf8_size (replicate n c) = n * utf8_bytes c"
  by (induction n) (simp_all add: utf8_size_def)

text \<open>What \<open>broadcast\<close> does, in terms of the test the code makes.\<close>

lemma broadcast_by_length:
  "serializations (broadcast serialize s m) = serializations s + 1
   \<and> (length (serialize m) > MAX_BROADCAST_SIZE \<longrightarrow>
        clients (broadcast serialize s m) = clients s
        \<and> warnings (broadcast serialize s m) = warnings s @ [BroadcastTooLarge (length (serialize m))])
   \<and> (length (serialize m) \<le> MAX_BROADCAST_SIZE \<longrightarrow>
        warnings (broadcast serialize s m) = warnings s
        \<and> length (clients (broadcast serialize s m)) = length (clients s)
        \<and> (\<forall>i < length (clients s).
              (cstate (clients s ! i) = OPEN \<longrightarrow>
                 clients (broadcast serialize s m) ! i =
                   (clients s ! i)\<lparr> outbox := outbox (clients s ! i) @ [serialize m] \<rparr>)
              \<and> (cstate (clients s ! i) \<noteq> OPEN \<longrightarrow>
                 clients (broadcast serialize s m) ! i = clients s ! i)))
   \<and> (clients s = [] \<longrightarrow> clients (broadcast serialize s m) = [])
   \<and> (clients s = [] \<and> length (serialize m) \<le> MAX_BROADCAST_SIZE \<longrightarrow>
        broadcast serialize s m = s\<lparr> serializations := serializations s + 1 \<rparr>)
   \<and> intervalActive (broadcast serialize s m) = intervalActive s
   \<and> onConnectionCalls (broadcast serialize s m) = onConnectionCalls s"
  by (auto simp: broadcast_def Let_def)

text \<open>
  C4, as amended.  A call of \<open>broadcast\<close> serializes the message exactly once.  When the
  serialized string has more than 1048576 code units (\<open>data.length\<close>), its size exceeds
  1 MiB, one warning is logged and no connection changes, so nothing is sent.  When the
  size of the serialized data is at most 1 MiB, nothing is logged, and every tracked
  connection whose state is open gets exactly the serialized string appended to what it was
  sent, while every other connection is left as it was.  With no tracked connection nothing
  is sent to anybody; a message of at most 1 MiB then changes nothing at all (but for the
  count of serializations), while an oversized one still logs its warning.  The function is
  total: no call raises.
\<close>

theorem broadcast_fanout:
  "serializations (broadcast serialize s m) = serializations s + 1
   \<and> (length (serialize m) > MAX_BROADCAST_SIZE \<longrightarrow>
        utf8_size (serialize m) > MAX_BROADCAST_SIZE
        \<and> clients (broadcast serialize s m) = clients s
        \<and> warnings (broadcast serialize s m) = warnings s @ [BroadcastTooLarge (length (serialize m))])
   \<and> (utf8_size (serialize m) \<le> MAX_BROADCAST_SIZE \<longrightarrow>
        warnings (broadcast serialize s m) = warnings s
        \<and> length (clients (broadcast serialize s m)) = length (clients s)
        \<and> (\<forall>i < length (clients s).
              (cstate (clients s ! i) = OPEN \<longrightarrow>
                 clients (broadcast serialize s m) ! i =
                   (clients s ! i)\<lparr> outbox := outbox (clients s ! i) @ [serialize m] \<rparr>)
              \<and> (cstate (clients s ! i) \<noteq> OPEN \<longrightarrow>
                 clients (broadcast serialize s m) ! i = clients s ! i)))
   \<and> (clients s = [] \<longrightarrow> clients (broadcast serialize s m) = [])
   \<and> (clients s = [] \<and> utf8_size (serialize m) \<le> MAX_BROADCAST_SIZE \<longrightarrow>
        broadcast serialize s m = s\<lparr> serializations := serializations s + 1 \<rparr>)
   \<and> intervalActive (broadcast serialize s m) = intervalActive s
   \<and> onConnectionCalls (broadcast serialize s m) = onConnectionCalls s"
proof -
  note L = broadcast_by_length [of serialize s m]
  have le: "length (serialize m) \<le> utf8_size (serialize m)" by (rule length_le_utf8_size)
  have small: "utf8_size (serialize m) \<le> MAX_BROADCAST_SIZE \<longrightarrow>
      length (serialize m) \<le> MAX_BROADCAST_SIZE"
    using le by simp
  have big: "length (serialize m) > MAX_BROADCAST_SIZE \<longrightarrow>
      utf8_size (serialize m) > MAX_BROADCAST_SIZE"
    using le by simp
  from L small big show ?thesis by blast
qed

theorem broadcast_fanout_witness:
  "length (plain_text 1048577) > MAX_BROADCAST_SIZE
   \<and> utf8_size (plain_text 1048577) > MAX_BROADCAST_SIZE
   \<and> clients (broadcast plain_text three_conns 1048577) = clients three_conns
   \<and> warnings (broadcast plain_text three_conns 1048577) = [BroadcastTooLarge 1048577]
   \<and> utf8_size (plain_text 2) \<le> MAX_BROADCAST_SIZE
   \<and> map cstate (clients three_conns) = [OPEN, CLOSING, OPEN]
   \<and> map outbox (clients (broadcast plain_text three_conns 2)) = [[''xx''], [], [''xx'']]
   \<and> warnings (broadcast plain_text three_conns 2) = []
   \<and> clients (broadcast plain_text createWSServer 2) = []
   \<and> broadcast plain_text createWSServer 2 =
       createWSServer\<lparr> serializations := serializations createWSServer + 1 \<rparr>"
proof -
  have big: "length (plain_text 1048577) > MAX_BROADCAST_SIZE"
    by (simp add: plain_text_def MAX_BROADCAST_SIZE_def)
  have small: "utf8_size (plain_text 2) \<le> MAX_BROADCAST_SIZE"
    by (simp add: plain_text_def utf8_size_replicate utf8_bytes_def MAX_BROADCAST_SIZE_def)
  have none: "clients createWSServer = []"
    and w: "warnings three_conns = []"
    and st: "map cstate (clients three_conns) = [OPEN, CLOSING, OPEN]"
    by (simp_all add: three_conns_def createWSServer_def createHeartbeat_def new_conn_def)
  have ev: "map outbox (clients (broadcast plain_text three_conns 2)) = [[''xx''], [], [''xx'']]"
    by (simp add: broadcast_def Let_def MAX_BROADCAST_SIZE_def three_conns_def plain_text_def
        createWSServer_def createHeartbeat_def new_conn_def numeral_2_eq_2)
  note A = broadcast_fanout [of plain_text three_conns 1048577]
  note B = broadcast_fanout [of plain_text three_conns 2]
  note C = broadcast_fanout [of plain_text createWSServer 2]
  from A big
  have a0: "utf8_size (plain_text 1048577) > MAX_BROADCAST_SIZE
       \<and> clients (broadcast plain_text three_conns 1048577) = clients three_conns
       \<and> warnings (broadcast plain_text three_conns 1048577) =
           warnings three_conns @ [BroadcastTooLarge (length (plain_text 1048577))]"
    by blast
  then have a: "utf8_size (plain_text 1048577) > MAX_BROADCAST_SIZE
       \<and> clients (broadcast plain_text three_conns 1048577) = clients three_conns
       \<and> warnings (broadcast plain_text three_conns 1048577) = [BroadcastTooLarge 1048577]"
    using w by (simp add: plain_text_def)
  from B small have "warnings (broadcast plain_text three_conns 2) = warnings three_conns"
    by blast
  with w have b: "warnings (broadcast plain_text three_conns 2) = []" by simp
  from C none have c: "clients (broadcast plain_text createWSServer 2) = []"
    by blast
  from C none small
  have d: "broadcast plain_text createWSServer 2 =
       createWSServer\<lparr> serializations := serializations createWSServer + 1 \<rparr>"
    by blast
  from big a small st ev b c d show ?thesis by blast
qed

text \<open>
  C4 as stated fails.  The test of line 66 counts code units, not bytes: a message whose
  serialized string has 600000 code units of two bytes each is 1200000 bytes in size, more
  than 1 MiB, and is sent to every open connection without a warning.  And with no tracked
  connection the call is not always a no-op: an oversized message still logs a warning.
\<close>

theorem broadcast_size_counterexample:
  "utf8_size (accented_text 600000) = 1200000
   \<and> MAX_BROADCAST_SIZE < utf8_size (accented_text 600000)
   \<and> map outbox (clients (broadcast accented_text three_conns 600000)) =
       [[accented_text 600000], [], [accented_text 600000]]
   \<and> warnings (broadcast accented_text three_conns 600000) = []
   \<and> clients createWSServer = []
   \<and> warnings createWSServer = []
   \<and> warnings (broadcast plain_text createWSServer 1048577) = [BroadcastTooLarge 1048577]"
proof -
  have sz: "utf8_size (accented_text 600000) = 1200000"
    by (simp add: accented_text_def utf8_size_replicate utf8_bytes_def)
  have len: "length (accented_text 600000) = 600000" "length (plain_text 1048577) = 1048577"
    by (simp_all add: accented_text_def plain_text_def)
  have sent: "map outbox (clients (broadcast accented_text three_conns 600000)) =
       [[accented_text 600000], [], [accented_text 600000]]
     \<and> warnings (broadcast accented_text three_conns 600000) = []"
    by (simp add: broadcast_def Let_def len MAX_BROADCAST_SIZE_def three_conns_def
        createWSServer_def createHeartbeat_def new_conn_def)
  have warned: "clients createWSServer = [] \<and> warnings createWSServer = []
     \<and> warnings (broadcast plain_text createWSServer 1048577) = [BroadcastTooLarge 1048577]"
    by (simp add: broadcast_def Let_def len MAX_BROADCAST_SIZE_def createWSServer_def
        createHeartbeat_def)
  from sz sent warned show ?thesis by (simp add: MAX_BROADCAST_SIZE_def)
qed

section \<open>Connection limit\<close>

lemma server_run_Nil [simp]: "server_run ser options s [] = s"
  by (simp add: server_run_def)

lemma server_run_Cons [simp]:
  "server_run ser options s (e # evs) = server_run ser options (server_step ser options s e) evs"
  by (simp add: server_run_def)

lemma server_run_snoc:
  "server_run ser options s (evs @ [e]) = server_step ser options (server_run ser options s evs) e"
  by (simp add: server_run_def)

lemma accept_connection_fresh:
  assumes "k \<notin> cid ` set (clients s)"
  shows "clients (heartbeat_on_connection k (s\<lparr> clients := clients s @ [new_conn k] \<rparr>)) =
           clients s @ [(new_conn k)\<lparr> isAlive := Some True, pongListener := True \<rparr>]"
proof -
  have "map (\<lambda>c. if cid c = k then c\<lparr> isAlive := Some True, pongListener := True \<rparr> else c) (clients s) = clients s"
    using assms by (intro map_idI) auto
  then show ?thesis by (simp add: heartbeat_on_connection_def new_conn_def)
qed

lemma accept_connection_over:
  assumes "k \<notin> cid ` set (clients s)"
    and "0 < maxConnections options" and "maxConnections options < int (length (clients s)) + 1"
  shows "clients (accept_connection options k s) =
           clients s @ [(new_conn k)\<lparr> isAlive := Some True, pongListener := True, cstate := CLOSING, closeCode := Some 1013 \<rparr>]"
    and "onConnectionCalls (accept_connection options k s) = onConnectionCalls s"
    and "warnings (accept_connection options k s) = warnings s @ [LimitReached (maxConnections options)]"
proof -
  let ?s1 = "heartbeat_on_connection k (s\<lparr> clients := clients s @ [new_conn k] \<rparr>)"
  have c1: "clients ?s1 = clients s @ [(new_conn k)\<lparr> isAlive := Some True, pongListener := True \<rparr>]"
    using assms(1) by (rule accept_connection_fresh)
  have keep: "map (\<lambda>c. if cid c = k then ws_close 1013 c else c) (clients s) = clients s"
    using assms(1) by (intro map_idI) auto
  have over: "maxConnections options > 0 \<and> int (length (clients ?s1)) > maxConnections options"
    using assms(2,3) c1 by simp
  show "clients (accept_connection options k s) =
           clients s @ [(new_conn k)\<lparr> isAlive := Some True, pongListener := True, cstate := CLOSING, closeCode := Some 1013 \<rparr>]"
    using over c1 keep
    by (simp add: accept_connection_def on_connection_def ws_close_def new_conn_def)
  show "onConnectionCalls (accept_connection options k s) = onConnectionCalls s"
    using over by (simp add: accept_connection_def on_connection_def heartbeat_on_connection_def)
  show "warnings (accept_connection options k s) = warnings s @ [LimitReached (maxConnections options)]"
    using over by (simp add: accept_connection_def on_connection_def heartbeat_on_connection_def)
qed

lemma accept_connection_under:
  assumes "k \<notin> cid ` set (clients s)"
    and "maxConnections options \<le> 0 \<or> int (length (clients s)) + 1 \<le> maxConnections options"
  shows "clients (accept_connection options k s) = clients s @ [(new_conn k)\<lparr> isAlive := Some True, pongListener := True \<rparr>]"
    and "onConnectionCalls (accept_connection options k s) = onConnectionCalls s @ [k]"
    and "warnings (accept_connection options k s) = warnings s"
proof -
  let ?s1 = "heartbeat_on_connection k (s\<lparr> clients := clients s @ [new_conn k] \<rparr>)"
  have c1: "clients ?s1 = clients s @ [(new_conn k)\<lparr> isAlive := Some True, pongListener := True \<rparr>]"
    using assms(1) by (rule accept_connection_fresh)
  have under: "\<not> (maxConnections options > 0 \<and> int (length (clients ?s1)) > maxConnections options)"
    using assms(2) c1 by auto
  show "clients (accept_connection options k s) = clients s @ [(new_conn k)\<lparr> isAlive := Some True, pongListener := True \<rparr>]"
    using under c1 by (auto simp: accept_connection_def on_connection_def)
  show "onConnectionCalls (accept_connection options k s) = onConnectionCalls s @ [k]"
    using under by (simp add: accept_connection_def on_connection_def heartbeat_on_connection_def)
  show "warnings (accept_connection options k s) = warnings s"
    using under by (simp add: accept_connection_def on_connection_def heartbeat_on_connection_def)
qed

lemma not_open_step:
  assumes "not_open k s" and "ev \<noteq> Connection k"
  shows "not_open k (server_step ser options s ev)"
proof (cases ev)
  case (Connection k')
  with assms show ?thesis
    by (auto simp: not_open_def server_step_def accept_connection_def on_connection_def
        heartbeat_on_connection_def ws_close_def new_conn_def)
next
  case (Pong k')
  with assms show ?thesis by (auto simp: not_open_def server_step_def on_pong_def)
next
  case Tick
  with assms show ?thesis
    by (auto simp: not_open_def server_step_def heartbeat_tick_def heartbeat_probe_def ws_terminate_def)
next
  case (Closed k')
  with assms show ?thesis by (auto simp: not_open_def server_step_def)
next
  case (Broadcast m)
  with assms show ?thesis by (auto simp: not_open_def server_step_def broadcast_def Let_def)
next
  case Cleanup
  with assms show ?thesis by (auto simp: not_open_def server_step_def cleanupHeartbeat_def)
qed

lemma not_open_run:
  "not_open k s \<Longrightarrow> Connection k \<notin> set evs \<Longrightarrow> not_open k (server_run ser options s evs)"
proof (induction evs arbitrary: s)
  case Nil
  then show ?case by simp
next
  case (Cons e evs)
  from Cons.prems have "not_open k (server_step ser options s e)"
    by (intro not_open_step) auto
  with Cons show ?case by simp
qed

lemma connect_many:
  assumes m: "0 < maxConnections options"
  shows "map cid (clients (server_run ser options createWSServer (map Connection [0..<n]))) = [0..<n]
    \<and> map cstate (clients (server_run ser options createWSServer (map Connection [0..<n]))) =
        map (\<lambda>i. if int i < maxConnections options then OPEN else CLOSING) [0..<n]"
proof (induction n)
  case 0
  show ?case by (simp add: createWSServer_def createHeartbeat_def)
next
  case (Suc n)
  define s where "s = server_run ser options createWSServer (map Connection [0..<n])"
  have ids: "map cid (clients s) = [0..<n]"
    and sts: "map cstate (clients s) =
        map (\<lambda>i. if int i < maxConnections options then OPEN else CLOSING) [0..<n]"
    using Suc by (simp_all add: s_def)
  have "length (map cid (clients s)) = length [0..<n]" by (simp only: ids)
  then have len: "length (clients s) = n" by simp
  have "set (map cid (clients s)) = set [0..<n]" by (simp only: ids)
  then have fresh: "n \<notin> cid ` set (clients s)" by simp
  have "server_run ser options createWSServer (map Connection [0..<Suc n]) =
      server_step ser options s (Connection n)"
    by (simp add: server_run_snoc s_def)
  also have "\<dots> = accept_connection options n s"
    using fresh by (simp add: server_step_def)
  finally have run: "server_run ser options createWSServer (map Connection [0..<Suc n]) =
      accept_connection options n s" .
  show ?case
  proof (cases "int n < maxConnections options")
    case True
    then have "maxConnections options \<le> 0 \<or> int (length (clients s)) + 1 \<le> maxConnections options"
      using len by simp
    from accept_connection_under(1) [OF fresh this]
    have "clients (accept_connection options n s) = clients s @ [(new_conn n)\<lparr> isAlive := Some True, pongListener := True \<rparr>]" .
    then show ?thesis
      unfolding run using ids sts True by (simp add: new_conn_def)
  next
    case False
    then have "maxConnections options < int (length (clients s)) + 1"
      using len by simp
    from accept_connection_over(1) [OF fresh m this]
    have "clients (accept_connection options n s) =
        clients s @ [(new_conn n)\<lparr> isAlive := Some True, pongListener := True, cstate := CLOSING, closeCode := Some 1013 \<rparr>]" .
    then show ?thesis
      unfolding run using ids sts False by (simp add: new_conn_def)
  qed
qed

lemma two_open_eq:
  "two_open = \<lparr> clients = [(new_conn 0)\<lparr> isAlive := Some True, pongListener := True \<rparr>, (new_conn 1)\<lparr> isAlive := Some True, pongListener := True \<rparr>],
      intervalActive = True, warnings = [], serializations = 0, onConnectionCalls = [0, 1] \<rparr>"
  by (simp add: two_open_def opts2_def createWSServer_def createHeartbeat_def server_step_def
      accept_connection_def on_connection_def heartbeat_on_connection_def maxConnections_def
      new_conn_def)

text \<open>
  C7.  Let a new socket \<open>k\<close> be registered on a server with \<open>maxConnections = m\<close>.  If
  \<open>m > 0\<close> and the number of tracked connections, the new one included, exceeds \<open>m\<close>, the
  socket is closed at once with code 1013, a warning is logged, \<open>onConnection\<close> is not
  called, and whatever happens later the socket is never open again.  If \<open>m = 0\<close>, or the
  count does not exceed \<open>m\<close>, the socket stays open and is handed to \<open>onConnection\<close>.  Of
  \<open>n\<close> sockets connecting one after the other to a fresh server with \<open>m > 0\<close>, the first
  \<open>m\<close> are open and the others are closing.
\<close>

theorem connection_limit_enforced:
  assumes "k \<notin> cid ` set (clients s)"
  shows "(0 < maxConnections options \<and> maxConnections options < int (length (clients s)) + 1 \<longrightarrow>
            clients (accept_connection options k s) =
              clients s @ [(new_conn k)\<lparr> isAlive := Some True, pongListener := True, cstate := CLOSING,
                                         closeCode := Some 1013 \<rparr>]
            \<and> onConnectionCalls (accept_connection options k s) = onConnectionCalls s
            \<and> warnings (accept_connection options k s) =
                warnings s @ [LimitReached (maxConnections options)]
            \<and> (\<forall>evs. Connection k \<notin> set evs \<longrightarrow>
                  not_open k (server_run ser options (accept_connection options k s) evs)))
       \<and> (maxConnections options = 0 \<or> int (length (clients s)) + 1 \<le> maxConnections options \<longrightarrow>
            clients (accept_connection options k s) =
              clients s @ [(new_conn k)\<lparr> isAlive := Some True, pongListener := True \<rparr>]
            \<and> onConnectionCalls (accept_connection options k s) = onConnectionCalls s @ [k]
            \<and> warnings (accept_connection options k s) = warnings s)
       \<and> (0 < maxConnections options \<longrightarrow>
            map cstate (clients (server_run ser options createWSServer (map Connection [0..<n]))) =
              map (\<lambda>i. if int i < maxConnections options then OPEN else CLOSING) [0..<n])"
proof (intro conjI impI)
  assume over: "0 < maxConnections options \<and> maxConnections options < int (length (clients s)) + 1"
  then have m: "0 < maxConnections options"
    and l: "maxConnections options < int (length (clients s)) + 1" by simp_all
  note r = accept_connection_over [OF assms m l]
  show "clients (accept_connection options k s) =
      clients s @ [(new_conn k)\<lparr> isAlive := Some True, pongListener := True, cstate := CLOSING, closeCode := Some 1013 \<rparr>]"
    by (rule r(1))
  show "onConnectionCalls (accept_connection options k s) = onConnectionCalls s" by (rule r(2))
  show "warnings (accept_connection options k s) =
      warnings s @ [LimitReached (maxConnections options)]" by (rule r(3))
  have "not_open k (accept_connection options k s)"
    using assms by (auto simp: not_open_def r(1))
  then show "\<forall>evs. Connection k \<notin> set evs \<longrightarrow>
      not_open k (server_run ser options (accept_connection options k s) evs)"
    by (simp add: not_open_run)
next
  assume "maxConnections options = 0 \<or> int (length (clients s)) + 1 \<le> maxConnections options"
  then have u: "maxConnections options \<le> 0 \<or> int (length (clients s)) + 1 \<le> maxConnections options"
    by auto
  note r = accept_connection_under [OF assms u]
  show "clients (accept_connection options k s) = clients s @ [(new_conn k)\<lparr> isAlive := Some True, pongListener := True \<rparr>]"
    by (rule r(1))
  show "onConnectionCalls (accept_connection options k s) = onConnectionCalls s @ [k]"
    by (rule r(2))
  show "warnings (accept_connection options k s) = warnings s" by (rule r(3))
next
  assume "0 < maxConnections options"
  then show "map cstate (clients (server_run ser options createWSServer (map Connection [0..<n]))) =
      map (\<lambda>i. if int i < maxConnections options then OPEN else CLOSING) [0..<n]"
    using connect_many by blast
qed

theorem connection_limit_enforced_witness:
  "2 \<notin> cid ` set (clients two_open)
   \<and> 0 < maxConnections opts2
   \<and> maxConnections opts2 < int (length (clients two_open)) + 1
   \<and> map cstate (clients two_open) = [OPEN, OPEN]
   \<and> map cstate (clients (accept_connection opts2 2 two_open)) = [OPEN, OPEN, CLOSING]
   \<and> map closeCode (clients (accept_connection opts2 2 two_open)) = [None, None, Some 1013]
   \<and> onConnectionCalls (accept_connection opts2 2 two_open) = [0, 1]
   \<and> not_open 2 (server_run (\<lambda>m. m) opts2 (accept_connection opts2 2 two_open)
        [Tick, Broadcast ''x'', Pong 2, Connection 3])
   \<and> maxConnections (opts2\<lparr> opt_maxConnections := Some 0 \<rparr>) = 0
   \<and> map cstate (clients (accept_connection (opts2\<lparr> opt_maxConnections := Some 0 \<rparr>) 2 two_open)) =
       [OPEN, OPEN, OPEN]
   \<and> map cstate (clients (server_run (\<lambda>m. m) opts2 createWSServer (map Connection [0..<3]))) =
       [OPEN, OPEN, CLOSING]"
proof -
  have f: "2 \<notin> cid ` set (clients two_open)"
    and st: "map cstate (clients two_open) = [OPEN, OPEN]"
    and len: "length (clients two_open) = 2"
    and calls: "onConnectionCalls two_open = [0, 1]"
    by (simp_all add: two_open_eq new_conn_def)
  have m: "0 < maxConnections opts2" "maxConnections opts2 < int (length (clients two_open)) + 1"
    "maxConnections opts2 = 2"
    by (simp_all add: len maxConnections_def opts2_def)
  have z: "maxConnections (opts2\<lparr> opt_maxConnections := Some 0 \<rparr>) = 0"
    by (simp add: maxConnections_def)
  have ev: "Connection 2 \<notin> set [Tick, Broadcast ''x'', Pong 2, Connection 3]" by simp
  have cc: "map closeCode (clients two_open) = [None, None]"
    by (simp add: two_open_eq new_conn_def)
  note T = connection_limit_enforced [OF f, of opts2 "\<lambda>m. m" 3]
  from T m(1,2)
  have c: "clients (accept_connection opts2 2 two_open) =
      clients two_open @ [(new_conn 2)\<lparr> isAlive := Some True, pongListener := True, cstate := CLOSING,
                                         closeCode := Some 1013 \<rparr>]"
    and o: "onConnectionCalls (accept_connection opts2 2 two_open) = onConnectionCalls two_open"
    and n: "\<forall>evs. Connection 2 \<notin> set evs \<longrightarrow>
        not_open 2 (server_run (\<lambda>m. m) opts2 (accept_connection opts2 2 two_open) evs)"
    by blast+
  from T m(1)
  have q: "map cstate (clients (server_run (\<lambda>m. m) opts2 createWSServer (map Connection [0..<3]))) =
      map (\<lambda>i. if int i < maxConnections opts2 then OPEN else CLOSING) [0..<3]"
    by blast
  have a1: "map cstate (clients (accept_connection opts2 2 two_open)) = [OPEN, OPEN, CLOSING]"
    and a2: "map closeCode (clients (accept_connection opts2 2 two_open)) = [None, None, Some 1013]"
    by (simp_all add: c st cc new_conn_def)
  have a3: "onConnectionCalls (accept_connection opts2 2 two_open) = [0, 1]"
    by (simp add: o calls)
  from n ev
  have a4: "not_open 2 (server_run (\<lambda>m. m) opts2 (accept_connection opts2 2 two_open)
      [Tick, Broadcast ''x'', Pong 2, Connection 3])"
    by blast
  have a5: "map cstate (clients (server_run (\<lambda>m. m) opts2 createWSServer (map Connection [0..<3]))) =
      [OPEN, OPEN, CLOSING]"
  proof -
    have "map (\<lambda>i. if int i < maxConnections opts2 then OPEN else CLOSING) [0..<3] =
        [OPEN, OPEN, CLOSING]"
      by (simp add: m(3) upt_rec)
    with q show ?thesis by (rule trans)
  qed
  from connection_limit_enforced [OF f, of "opts2\<lparr> opt_maxConnections := Some 0 \<rparr>" "\<lambda>m. m" 0] z
  have "clients (accept_connection (opts2\<lparr> opt_maxConnections := Some 0 \<rparr>) 2 two_open) =
      clients two_open @ [(new_conn 2)\<lparr> isAlive := Some True, pongListener := True \<rparr>]"
    by blast
  then have b: "map cstate (clients (accept_connection (opts2\<lparr> opt_maxConnections := Some 0 \<rparr>) 2 two_open)) =
       [OPEN, OPEN, OPEN]"
    by (simp add: st new_conn_def)
  from f m(1,2) st a1 a2 a3 a4 a5 b z show ?thesis by blast
qed

section \<open>Heartbeat\<close>

lemma cid_heartbeat_probe [simp]: "cid (heartbeat_probe c) = cid c"
  by (simp add: heartbeat_probe_def ws_terminate_def)

lemma cid_ws_close [simp]: "cid (ws_close code c) = cid c"
  by (simp add: ws_close_def)

lemma cids_on_pong: "map cid (clients (on_pong k' s)) = map cid (clients s)"
  by (simp add: on_pong_def o_def if_distrib [of cid])

lemma cids_heartbeat_on_connection:
  "map cid (clients (heartbeat_on_connection k' s)) = map cid (clients s)"
  by (simp add: heartbeat_on_connection_def o_def if_distrib [of cid])

lemma cids_on_connection: "map cid (clients (on_connection options k' s)) = map cid (clients s)"
  by (simp add: on_connection_def o_def if_distrib [of cid])

lemma cids_heartbeat_tick: "map cid (clients (heartbeat_tick s)) = map cid (clients s)"
  by (simp add: heartbeat_tick_def o_def)

lemma cids_broadcast: "map cid (clients (broadcast ser s m)) = map cid (clients s)"
  by (simp add: broadcast_def Let_def o_def if_distrib [of cid])

lemma cids_accept_connection:
  "map cid (clients (accept_connection options k' s)) = map cid (clients s) @ [k']"
  by (simp add: accept_connection_def cids_on_connection cids_heartbeat_on_connection
      new_conn_def)

lemma cids_image: "map cid xs = ys \<Longrightarrow> cid ` set xs = set ys"
  by (metis list.set_map)

lemma cids_step:
  assumes "k \<in> cid ` set (clients s)" and "hb_silent k ev"
  shows "k \<in> cid ` set (clients (server_step ser options s ev))"
proof (cases ev)
  case (Connection k')
  have "cid ` set (clients (accept_connection options k' s)) = set (map cid (clients s) @ [k'])"
    by (rule cids_image [OF cids_accept_connection])
  with assms(1) Connection show ?thesis by (simp add: server_step_def)
next
  case (Pong k')
  have "cid ` set (clients (on_pong k' s)) = set (map cid (clients s))"
    by (rule cids_image [OF cids_on_pong])
  with assms(1) Pong show ?thesis by (simp add: server_step_def)
next
  case Tick
  have "cid ` set (clients (heartbeat_tick s)) = set (map cid (clients s))"
    by (rule cids_image [OF cids_heartbeat_tick])
  with assms(1) Tick show ?thesis by (simp add: server_step_def)
next
  case (Closed k')
  with assms have "k' \<noteq> k" by (auto simp: hb_silent_def)
  with assms(1) have "k \<in> cid ` set (filter (\<lambda>c. cid c \<noteq> k') (clients s))" by auto
  with Closed show ?thesis by (simp add: server_step_def)
next
  case (Broadcast m)
  have "cid ` set (clients (broadcast ser s m)) = set (map cid (clients s))"
    by (rule cids_image [OF cids_broadcast])
  with assms(1) Broadcast show ?thesis by (simp add: server_step_def)
next
  case Cleanup
  with assms show ?thesis by (simp add: hb_silent_def)
qed

lemma not_closed_step:
  assumes "\<forall>c \<in> set (clients s). cid c = k \<longrightarrow> cstate c \<noteq> CLOSED" and "hb_silent k ev"
    and "k \<in> cid ` set (clients s)"
  shows "\<forall>c \<in> set (clients (server_step ser options s ev)). cid c = k \<longrightarrow> cstate c \<noteq> CLOSED"
proof (cases ev)
  case (Connection k')
  with assms show ?thesis
    by (auto simp: server_step_def accept_connection_def on_connection_def
        heartbeat_on_connection_def ws_close_def new_conn_def)
next
  case (Pong k')
  with assms show ?thesis by (auto simp: server_step_def on_pong_def)
next
  case Tick
  with assms show ?thesis
    by (auto simp: server_step_def heartbeat_tick_def heartbeat_probe_def ws_terminate_def)
next
  case (Closed k')
  with assms show ?thesis by (auto simp: server_step_def)
next
  case (Broadcast m)
  with assms show ?thesis by (auto simp: server_step_def broadcast_def Let_def)
next
  case Cleanup
  with assms show ?thesis by (simp add: hb_silent_def)
qed

lemma interval_step:
  "intervalActive s \<Longrightarrow> ev \<noteq> Cleanup \<Longrightarrow> intervalActive (server_step ser options s ev)"
  by (cases ev) (auto simp: server_step_def accept_connection_def on_connection_def
      heartbeat_on_connection_def on_pong_def heartbeat_tick_def broadcast_def Let_def)

lemma hb_tracked_step:
  assumes "hb_tracked k s" and "hb_silent k ev"
  shows "hb_tracked k (server_step ser options s ev)"
proof -
  from assms have a: "intervalActive s" and b: "k \<in> cid ` set (clients s)"
    and c: "\<forall>c \<in> set (clients s). cid c = k \<longrightarrow> cstate c \<noteq> CLOSED"
    and d: "ev \<noteq> Cleanup"
    by (simp_all add: hb_tracked_def hb_silent_def)
  from a d have "intervalActive (server_step ser options s ev)" by (rule interval_step)
  moreover from b assms(2) have "k \<in> cid ` set (clients (server_step ser options s ev))"
    by (rule cids_step)
  moreover from c assms(2) b
  have "\<forall>c \<in> set (clients (server_step ser options s ev)). cid c = k \<longrightarrow> cstate c \<noteq> CLOSED"
    by (rule not_closed_step)
  ultimately show ?thesis by (simp add: hb_tracked_def)
qed

lemma hb_unanswered_step:
  assumes "hb_unanswered k s" and "hb_silent k ev" and "k \<in> cid ` set (clients s)"
  shows "hb_unanswered k (server_step ser options s ev)"
proof (cases ev)
  case (Connection k')
  with assms show ?thesis
    by (auto simp: hb_unanswered_def server_step_def accept_connection_def on_connection_def
        heartbeat_on_connection_def ws_close_def new_conn_def)
next
  case (Pong k')
  with assms show ?thesis
    by (auto simp: hb_unanswered_def hb_silent_def server_step_def on_pong_def)
next
  case Tick
  with assms show ?thesis
    by (auto simp: hb_unanswered_def server_step_def heartbeat_tick_def heartbeat_probe_def
        ws_terminate_def)
next
  case (Closed k')
  with assms show ?thesis
    by (auto simp: hb_unanswered_def server_step_def)
next
  case (Broadcast m)
  with assms show ?thesis
    by (auto simp: hb_unanswered_def server_step_def broadcast_def Let_def)
next
  case Cleanup
  with assms show ?thesis by (simp add: hb_silent_def)
qed

lemma hb_terminated_step:
  assumes "hb_terminated k s" and "hb_silent k ev" and "k \<in> cid ` set (clients s)"
  shows "hb_terminated k (server_step ser options s ev)"
proof (cases ev)
  case (Connection k')
  with assms show ?thesis
    by (auto simp: hb_terminated_def server_step_def accept_connection_def on_connection_def
        heartbeat_on_connection_def ws_close_def new_conn_def)
next
  case (Pong k')
  with assms show ?thesis
    by (auto simp: hb_terminated_def hb_silent_def server_step_def on_pong_def)
next
  case Tick
  with assms show ?thesis
    by (auto simp: hb_terminated_def server_step_def heartbeat_tick_def heartbeat_probe_def
        ws_terminate_def)
next
  case (Closed k')
  with assms show ?thesis
    by (auto simp: hb_terminated_def server_step_def)
next
  case (Broadcast m)
  with assms show ?thesis
    by (auto simp: hb_terminated_def server_step_def broadcast_def Let_def)
next
  case Cleanup
  with assms show ?thesis by (simp add: hb_silent_def)
qed

lemma tick_unanswered:
  "intervalActive s \<Longrightarrow> hb_unanswered k (server_step ser options s Tick)"
  by (auto simp: hb_unanswered_def server_step_def heartbeat_tick_def heartbeat_probe_def
      ws_terminate_def)

lemma tick_terminates:
  "hb_tracked k s \<Longrightarrow> hb_unanswered k s \<Longrightarrow> hb_terminated k (server_step ser options s Tick)"
  by (auto simp: hb_tracked_def hb_unanswered_def hb_terminated_def server_step_def
      heartbeat_tick_def heartbeat_probe_def ws_terminate_def)

lemma run_terminated:
  "hb_tracked k s \<Longrightarrow> hb_terminated k s \<Longrightarrow> \<forall>e \<in> set evs. hb_silent k e \<Longrightarrow>
     hb_tracked k (server_run ser options s evs) \<and> hb_terminated k (server_run ser options s evs)"
proof (induction evs arbitrary: s)
  case Nil
  then show ?case by simp
next
  case (Cons e evs)
  from Cons.prems have sil: "hb_silent k e" by simp
  have t: "hb_tracked k (server_step ser options s e)"
    using Cons.prems(1) sil by (rule hb_tracked_step)
  have "k \<in> cid ` set (clients s)" using Cons.prems(1) by (simp add: hb_tracked_def)
  with Cons.prems(2) sil have "hb_terminated k (server_step ser options s e)"
    by (intro hb_terminated_step)
  with t Cons show ?case by simp
qed

lemma run_unanswered:
  "hb_tracked k s \<Longrightarrow> hb_unanswered k s \<Longrightarrow> \<forall>e \<in> set evs. hb_silent k e \<Longrightarrow>
     1 \<le> count_list evs Tick \<Longrightarrow>
     hb_tracked k (server_run ser options s evs) \<and> hb_terminated k (server_run ser options s evs)"
proof (induction evs arbitrary: s)
  case Nil
  then show ?case by simp
next
  case (Cons e evs)
  from Cons.prems have sil: "hb_silent k e" and rest: "\<forall>e \<in> set evs. hb_silent k e" by simp_all
  have t: "hb_tracked k (server_step ser options s e)"
    using Cons.prems(1) sil by (rule hb_tracked_step)
  have tr: "k \<in> cid ` set (clients s)" using Cons.prems(1) by (simp add: hb_tracked_def)
  show ?case
  proof (cases "e = Tick")
    case True
    with Cons.prems have "hb_terminated k (server_step ser options s e)"
      by (simp add: tick_terminates)
    with t rest show ?thesis using run_terminated by simp
  next
    case False
    with Cons.prems(4) have c: "1 \<le> count_list evs Tick" by simp
    from Cons.prems(2) sil tr have "hb_unanswered k (server_step ser options s e)"
      by (intro hb_unanswered_step)
    with t rest c Cons.IH show ?thesis by simp
  qed
qed

lemma run_two_ticks:
  "hb_tracked k s \<Longrightarrow> \<forall>e \<in> set evs. hb_silent k e \<Longrightarrow> 2 \<le> count_list evs Tick \<Longrightarrow>
     hb_tracked k (server_run ser options s evs) \<and> hb_terminated k (server_run ser options s evs)"
proof (induction evs arbitrary: s)
  case Nil
  then show ?case by simp
next
  case (Cons e evs)
  from Cons.prems have sil: "hb_silent k e" and rest: "\<forall>e \<in> set evs. hb_silent k e" by simp_all
  have t: "hb_tracked k (server_step ser options s e)"
    using Cons.prems(1) sil by (rule hb_tracked_step)
  show ?case
  proof (cases "e = Tick")
    case True
    with Cons.prems(3) have c: "1 \<le> count_list evs Tick" by simp
    from Cons.prems(1) have "intervalActive s" by (simp add: hb_tracked_def)
    then have "hb_unanswered k (server_step ser options s e)"
      unfolding True by (rule tick_unanswered)
    with t rest c show ?thesis using run_unanswered by simp
  next
    case False
    with Cons.prems(3) have "2 \<le> count_list evs Tick" by simp
    with t rest Cons.IH show ?thesis by simp
  qed
qed

lemma cleanup_stays:
  "\<not> intervalActive s \<Longrightarrow> \<not> intervalActive (server_run ser options s evs)"
proof (induction evs arbitrary: s)
  case Nil
  then show ?case by simp
next
  case (Cons e evs)
  have "\<not> intervalActive (server_step ser options s e)"
    using Cons.prems
    by (cases e) (auto simp: server_step_def accept_connection_def on_connection_def
        heartbeat_on_connection_def on_pong_def broadcast_def Let_def cleanupHeartbeat_def)
  with Cons.IH show ?case by simp
qed

lemma pong_sets_alive:
  "\<forall>c' \<in> set (clients (server_step ser options s (Pong k))).
      cid c' = k \<and> pongListener c' \<longrightarrow> isAlive c' = Some True"
proof (intro ballI impI)
  fix c'
  assume mem: "c' \<in> set (clients (server_step ser options s (Pong k)))"
    and k: "cid c' = k \<and> pongListener c'"
  have "clients (server_step ser options s (Pong k)) =
      map (\<lambda>c. if cid c = k \<and> pongListener c then c\<lparr> isAlive := Some True \<rparr> else c) (clients s)"
    by (simp add: server_step_def on_pong_def)
  with mem have "c' \<in> (\<lambda>c. if cid c = k \<and> pongListener c then c\<lparr> isAlive := Some True \<rparr> else c)
      ` set (clients s)"
    by (simp only: set_map)
  then obtain c where c: "c' = (if cid c = k \<and> pongListener c then c\<lparr> isAlive := Some True \<rparr> else c)"
    by blast
  show "isAlive c' = Some True"
  proof (cases "cid c = k \<and> pongListener c")
    case True
    with c show ?thesis by simp
  next
    case False
    with c k show ?thesis by simp
  qed
qed

lemma pong_without_listener:
  "\<forall>c \<in> set (clients s). cid c = k \<longrightarrow> \<not> pongListener c \<Longrightarrow>
     server_step ser options s (Pong k) = s"
proof -
  assume no: "\<forall>c \<in> set (clients s). cid c = k \<longrightarrow> \<not> pongListener c"
  then have "map (\<lambda>c. if cid c = k \<and> pongListener c then c\<lparr> isAlive := Some True \<rparr> else c) (clients s) =
      clients s"
    by (intro map_idI) auto
  then show ?thesis by (simp add: server_step_def on_pong_def)
qed

lemma listener_accept:
  assumes "\<forall>c \<in> set (clients s). pongListener c"
  shows "\<forall>c \<in> set (clients (accept_connection options k s)). pongListener c"
proof
  fix c
  assume "c \<in> set (clients (accept_connection options k s))"
  then have "c \<in> set (clients (heartbeat_on_connection k (s\<lparr> clients := clients s @ [new_conn k] \<rparr>)))
      \<or> (\<exists>c0 \<in> set (clients (heartbeat_on_connection k (s\<lparr> clients := clients s @ [new_conn k] \<rparr>))).
            c = ws_close 1013 c0)"
    by (auto simp: accept_connection_def on_connection_def split: if_splits)
  moreover have "\<forall>c0 \<in> set (clients (heartbeat_on_connection k (s\<lparr> clients := clients s @ [new_conn k] \<rparr>))).
      pongListener c0"
    using assms by (auto simp: heartbeat_on_connection_def new_conn_def)
  ultimately show "pongListener c" by (auto simp: ws_close_def)
qed

lemma listener_step:
  assumes "\<forall>c \<in> set (clients s). pongListener c"
  shows "\<forall>c \<in> set (clients (server_step ser options s ev)). pongListener c"
proof (cases ev)
  case (Connection k)
  from listener_accept [OF assms, of options k] assms
  have "\<forall>c \<in> set (clients (if k \<in> set (map cid (clients s)) then s
                                  else accept_connection options k s)). pongListener c"
    by simp
  with Connection show ?thesis by (simp add: server_step_def)
next
  case (Pong k)
  with assms show ?thesis by (auto simp: server_step_def on_pong_def)
next
  case Tick
  with assms show ?thesis
    by (auto simp: server_step_def heartbeat_tick_def heartbeat_probe_def ws_terminate_def)
next
  case (Closed k)
  with assms show ?thesis by (simp add: server_step_def)
next
  case (Broadcast m)
  with assms show ?thesis by (auto simp: server_step_def broadcast_def Let_def)
next
  case Cleanup
  with assms show ?thesis by (simp add: server_step_def cleanupHeartbeat_def)
qed

lemma listener_run:
  "\<forall>c \<in> set (clients s). pongListener c \<Longrightarrow>
     \<forall>c \<in> set (clients (server_run ser options s evs)). pongListener c"
proof (induction evs arbitrary: s)
  case Nil
  then show ?case by simp
next
  case (Cons e evs)
  from Cons.prems have "\<forall>c \<in> set (clients (server_step ser options s e)). pongListener c"
    by (rule listener_step)
  then have "\<forall>c \<in> set (clients (server_run ser options (server_step ser options s e) evs)).
      pongListener c"
    by (rule Cons.IH)
  then show ?case by simp
qed

text \<open>
  What the heartbeat does for a server made by \<open>createWSServer\<close>, where the heartbeat is
  started before the first connection arrives.  A tick probes every tracked connection: one
  whose flag is false is terminated (and gets no ping); any other has its flag set to false
  and is sent one ping.  Every tracked connection carries the \<open>pong\<close> listener, and a pong of
  a connection that carries it sets its flag to true.  A tracked connection that answers no
  probe is terminated by the second tick after it was tracked, whatever else happens in
  between, that is within two heartbeat intervals.  After the cleanup function the interval
  stays cleared, and a tick no longer has any effect.
\<close>

lemma heartbeat_protocol:
  "(intervalActive s \<longrightarrow> clients (server_step ser options s Tick) = map heartbeat_probe (clients s))
   \<and> (isAlive c = Some False \<and> cstate c \<noteq> CLOSED \<longrightarrow>
        terminated (heartbeat_probe c) \<and> cstate (heartbeat_probe c) = CLOSING
        \<and> pings (heartbeat_probe c) = pings c)
   \<and> (isAlive c \<noteq> Some False \<longrightarrow>
        isAlive (heartbeat_probe c) = Some False \<and> pings (heartbeat_probe c) = pings c + 1
        \<and> terminated (heartbeat_probe c) = terminated c
        \<and> cstate (heartbeat_probe c) = cstate c)
   \<and> (\<forall>c' \<in> set (clients (server_run ser options createWSServer evs0)). pongListener c')
   \<and> (\<forall>c' \<in> set (clients (server_step ser options s (Pong k))).
        cid c' = k \<and> pongListener c' \<longrightarrow> isAlive c' = Some True)
   \<and> (hb_tracked k s \<and> (\<forall>e \<in> set evs. hb_silent k e) \<and> 2 \<le> count_list evs Tick \<longrightarrow>
        hb_tracked k (server_run ser options s evs) \<and> hb_terminated k (server_run ser options s evs))
   \<and> \<not> intervalActive (server_run ser options (server_step ser options s Cleanup) evs')
   \<and> server_step ser options (server_run ser options (server_step ser options s Cleanup) evs') Tick =
       server_run ser options (server_step ser options s Cleanup) evs'"
proof -
  have off: "\<not> intervalActive (server_run ser options (server_step ser options s Cleanup) evs')"
    by (rule cleanup_stays) (simp add: server_step_def cleanupHeartbeat_def)
  then have noop: "server_step ser options (server_run ser options (server_step ser options s Cleanup) evs') Tick =
       server_run ser options (server_step ser options s Cleanup) evs'"
    by (simp add: server_step_def)
  have tick: "intervalActive s \<longrightarrow> clients (server_step ser options s Tick) = map heartbeat_probe (clients s)"
    by (simp add: server_step_def heartbeat_tick_def)
  have dead: "isAlive c = Some False \<and> cstate c \<noteq> CLOSED \<longrightarrow>
        terminated (heartbeat_probe c) \<and> cstate (heartbeat_probe c) = CLOSING
        \<and> pings (heartbeat_probe c) = pings c"
    by (simp add: heartbeat_probe_def ws_terminate_def)
  have alive: "isAlive c \<noteq> Some False \<longrightarrow>
        isAlive (heartbeat_probe c) = Some False \<and> pings (heartbeat_probe c) = pings c + 1
        \<and> terminated (heartbeat_probe c) = terminated c
        \<and> cstate (heartbeat_probe c) = cstate c"
    by (simp add: heartbeat_probe_def)
  have reg: "\<forall>c' \<in> set (clients (server_run ser options createWSServer evs0)). pongListener c'"
    by (rule listener_run) (simp add: createWSServer_def createHeartbeat_def)
  have pong: "\<forall>c' \<in> set (clients (server_step ser options s (Pong k))).
        cid c' = k \<and> pongListener c' \<longrightarrow> isAlive c' = Some True"
    by (rule pong_sets_alive)
  have two: "hb_tracked k s \<and> (\<forall>e \<in> set evs. hb_silent k e) \<and> 2 \<le> count_list evs Tick \<longrightarrow>
        hb_tracked k (server_run ser options s evs) \<and> hb_terminated k (server_run ser options s evs)"
    using run_two_ticks by blast
  show ?thesis by (intro conjI tick dead alive reg pong two off noop)
qed

text \<open>
  The same on a server with two connections admitted by \<open>createWSServer\<close>: connection 0 answers
  no probe and is terminated by the second tick; connection 1 answers the first probe and
  is probed again; after the cleanup a tick pings nobody.
\<close>

lemma heartbeat_protocol_sample:
  "intervalActive two_open
   \<and> map isAlive (clients (server_step (\<lambda>m. m) opts2 two_open Tick)) = [Some False, Some False]
   \<and> map pings (clients (server_step (\<lambda>m. m) opts2 two_open Tick)) = [1, 1]
   \<and> map terminated (clients (server_step (\<lambda>m. m) opts2 two_open Tick)) = [False, False]
   \<and> map isAlive (clients (server_run (\<lambda>m. m) opts2 two_open [Tick, Pong 1])) = [Some False, Some True]
   \<and> hb_tracked 0 two_open
   \<and> list_all (hb_silent 0) silent_run
   \<and> 2 \<le> count_list silent_run Tick
   \<and> hb_terminated 0 (server_run (\<lambda>m. m) opts2 two_open silent_run)
   \<and> map terminated (clients (server_run (\<lambda>m. m) opts2 two_open silent_run)) = [True, False, False]
   \<and> map pings (clients (server_run (\<lambda>m. m) opts2 two_open silent_run)) = [1, 2, 0]
   \<and> map pings (clients (server_run (\<lambda>m. m) opts2 two_open [Tick, Cleanup, Tick, Tick])) = [1, 1]"
proof -
  have act: "intervalActive two_open" by (simp add: two_open_eq)
  have st: "map isAlive (clients two_open) = [Some True, Some True]"
    "map pings (clients two_open) = [0, 0]" "map terminated (clients two_open) = [False, False]"
    by (simp_all add: two_open_eq new_conn_def)
  have tr: "hb_tracked 0 two_open" by (simp add: hb_tracked_def two_open_eq new_conn_def)
  have sil: "\<forall>e \<in> set silent_run. hb_silent 0 e" by (simp add: silent_run_def hb_silent_def)
  have cnt: "2 \<le> count_list silent_run Tick" by (simp add: silent_run_def)
  note T = heartbeat_protocol [of two_open "\<lambda>m. m" opts2 _ _ 0 silent_run]
  from T [THEN conjunct1] act
  have "clients (server_step (\<lambda>m. m) opts2 two_open Tick) = map heartbeat_probe (clients two_open)"
    by (rule mp)
  then have a: "map isAlive (clients (server_step (\<lambda>m. m) opts2 two_open Tick)) = [Some False, Some False]
     \<and> map pings (clients (server_step (\<lambda>m. m) opts2 two_open Tick)) = [1, 1]
     \<and> map terminated (clients (server_step (\<lambda>m. m) opts2 two_open Tick)) = [False, False]"
    by (simp add: two_open_eq new_conn_def heartbeat_probe_def)
  from tr sil cnt
  have "hb_tracked 0 two_open \<and> (\<forall>e \<in> set silent_run. hb_silent 0 e) \<and> 2 \<le> count_list silent_run Tick"
    by (intro conjI)
  with T [THEN conjunct2, THEN conjunct2, THEN conjunct2, THEN conjunct2, THEN conjunct2,
      THEN conjunct1]
  have "hb_tracked 0 (server_run (\<lambda>m. m) opts2 two_open silent_run)
      \<and> hb_terminated 0 (server_run (\<lambda>m. m) opts2 two_open silent_run)"
    by (rule mp)
  then have b: "hb_terminated 0 (server_run (\<lambda>m. m) opts2 two_open silent_run)" ..
  have c: "map terminated (clients (server_run (\<lambda>m. m) opts2 two_open silent_run)) = [True, False, False]
     \<and> map pings (clients (server_run (\<lambda>m. m) opts2 two_open silent_run)) = [1, 2, 0]
     \<and> map pings (clients (server_run (\<lambda>m. m) opts2 two_open [Tick, Cleanup, Tick, Tick])) = [1, 1]
     \<and> map isAlive (clients (server_run (\<lambda>m. m) opts2 two_open [Tick, Pong 1])) = [Some False, Some True]"
    by (simp add: silent_run_def two_open_eq new_conn_def server_step_def heartbeat_tick_def
        heartbeat_probe_def ws_terminate_def on_pong_def broadcast_def Let_def
        MAX_BROADCAST_SIZE_def accept_connection_def on_connection_def
        heartbeat_on_connection_def ws_close_def maxConnections_def opts2_def
        cleanupHeartbeat_def)
  from sil have sil': "list_all (hb_silent 0) silent_run" by (simp add: list_all_iff)
  from act a tr sil' cnt b c show ?thesis by simp
qed

text \<open>
  C9.  \<open>createHeartbeat\<close> is exported on its own, to start the heartbeat on an existing server.
  Called on a server that already tracks an open connection, it registers the \<open>pong\<close>
  listener for the connections to come only.  The connection already tracked is probed at
  the first tick; its pong finds no listener, so the flag stays false, contrary to the
  claim that any pong response sets the flag back to true; and the second tick terminates
  the connection although it answered every probe.
\<close>

theorem heartbeat_ignores_pong_of_existing_connection:
  "map isAlive (clients (server_run (\<lambda>m. m) opts2 (createHeartbeat existing_server) [Tick])) =
     [Some False]
   \<and> map pings (clients (server_run (\<lambda>m. m) opts2 (createHeartbeat existing_server) [Tick])) = [1]
   \<and> map isAlive (clients (server_run (\<lambda>m. m) opts2 (createHeartbeat existing_server) answered_run)) =
       [Some False]
   \<and> map terminated
       (clients (server_run (\<lambda>m. m) opts2 (createHeartbeat existing_server) (answered_run @ [Tick]))) =
       [True]
   \<and> map cstate
       (clients (server_run (\<lambda>m. m) opts2 (createHeartbeat existing_server) (answered_run @ [Tick]))) =
       [CLOSING]"
  by (simp add: existing_server_def answered_run_def createHeartbeat_def new_conn_def
      server_step_def heartbeat_tick_def heartbeat_probe_def ws_terminate_def on_pong_def)

section \<open>Reconnection backoff\<close>

lemma reconnect_delay_le: "reconnect_delay n M r \<le> M"
  by (simp add: reconnect_delay_def Let_def)

lemma reconnect_delay_factor:
  assumes r: "0 \<le> r" "r < 1"
  shows "\<exists>f. 0.7 \<le> f \<and> f \<le> 1.3 \<and> reconnect_delay n M r = f * min (1000 * 2 ^ n) M"
proof -
  define base where "base = min (1000 * 2 ^ n) M"
  define f0 where "f0 = 0.7 + r * 0.6"
  have f0: "0.7 \<le> f0" "f0 < 1.3" using r by (simp_all add: f0_def)
  have bM: "base \<le> M" by (simp add: base_def)
  have d: "reconnect_delay n M r = min (base * f0) M"
    by (simp add: reconnect_delay_def Let_def base_def f0_def)
  show ?thesis
  proof (cases "base * f0 \<le> M")
    case True
    then have "reconnect_delay n M r = f0 * base" using d by (simp add: mult.commute)
    with f0 show ?thesis unfolding base_def by (intro exI [of _ f0]) simp
  next
    case False
    then have lt: "M < base * f0" by simp
    then have dM: "reconnect_delay n M r = M" using d by simp
    have nz: "base \<noteq> 0" using lt bM by auto
    have "0.7 \<le> M / base \<and> M / base \<le> 1.3"
    proof (cases "0 < base")
      case True
      then have "1 \<le> M / base" using bM by (simp add: le_divide_eq)
      moreover have "M / base < f0" using lt True by (simp add: divide_less_eq mult.commute)
      ultimately show ?thesis using f0 by (intro conjI) linarith+
    next
      case False
      with nz have neg: "base < 0" by simp
      then have "M / base \<le> 1" using bM by (simp add: divide_le_eq)
      moreover have "f0 < M / base" using lt neg by (simp add: less_divide_eq mult.commute)
      ultimately show ?thesis using f0 by (intro conjI) linarith+
    qed
    moreover have "reconnect_delay n M r = (M / base) * base" using dM nz by simp
    ultimately show ?thesis unfolding base_def by blast
  qed
qed

lemma reconnect_delay_range:
  assumes r: "0 \<le> r" "r < 1" and M: "0 \<le> M"
  shows "0.7 * min (1000 * 2 ^ n) M \<le> reconnect_delay n M r"
    and "reconnect_delay n M r \<le> 1.3 * min (1000 * 2 ^ n) M"
proof -
  define base where "base = min (1000 * 2 ^ n) M"
  have b0: "0 \<le> base" using M by (simp add: base_def)
  have bM: "base \<le> M" by (simp add: base_def)
  have d: "reconnect_delay n M r = min (base * (0.7 + r * 0.6)) M"
    by (simp add: reconnect_delay_def Let_def base_def)
  have lo: "0.7 * base \<le> base * (0.7 + r * 0.6)"
    using b0 r by (simp add: algebra_simps)
  have hi: "base * (0.7 + r * 0.6) \<le> 1.3 * base"
  proof -
    have "0.7 + r * 0.6 \<le> 1.3" using r by simp
    then have "base * (0.7 + r * 0.6) \<le> base * 1.3" using b0 by (rule mult_left_mono)
    then show ?thesis by (simp add: mult.commute)
  qed
  have "0.7 * base \<le> M" using b0 bM by simp
  with lo show "0.7 * min (1000 * 2 ^ n) M \<le> reconnect_delay n M r"
    unfolding d base_def [symmetric] by simp
  from hi show "reconnect_delay n M r \<le> 1.3 * min (1000 * 2 ^ n) M"
    unfolding d base_def [symmetric] by simp
qed

lemma ws_send_frame: "\<exists>ss. ws_send E c d = c\<lparr> sockets := ss \<rparr>"
proof (cases "ws c")
  case None
  then have "ws_send E c d = c\<lparr> sockets := sockets c \<rparr>" by (simp add: ws_send_def)
  then show ?thesis ..
next
  case (Some i)
  show ?thesis
  proof (cases "i < length (sockets c)")
    case True
    with Some show ?thesis by (simp add: ws_send_def) blast
  next
    case False
    with Some have "ws_send E c d = c\<lparr> sockets := sockets c \<rparr>" by (simp add: ws_send_def)
    then show ?thesis ..
  qed
qed

lemma flushQueue_frame: "\<exists>q ss. flushQueue E c = c\<lparr> queue := q, sockets := ss \<rparr>"
proof (induction E c rule: flushQueue.induct)
  case (1 E c)
  show ?case
  proof (cases "length (queue c) > 0 \<and> ws_readyState c = Some OPEN")
    case True
    let ?c0 = "c\<lparr> queue := tl (queue c) \<rparr>"
    let ?c1 = "ws_send E ?c0 (hd (queue c))"
    from 1 [OF True] obtain q ss where a: "flushQueue E ?c1 = ?c1\<lparr> queue := q, sockets := ss \<rparr>"
      by blast
    obtain ss1 where b: "?c1 = ?c0\<lparr> sockets := ss1 \<rparr>"
      using ws_send_frame [of E ?c0 "hd (queue c)"] by blast
    have "flushQueue E c = flushQueue E ?c1"
      using True by (subst flushQueue.simps) simp
    also have "\<dots> = c\<lparr> queue := q, sockets := ss \<rparr>"
      unfolding a unfolding b by simp
    finally show ?thesis by blast
  next
    case False
    then have "flushQueue E c = c" by (subst flushQueue.simps) auto
    then have "flushQueue E c = c\<lparr> queue := queue c, sockets := sockets c \<rparr>" by simp
    then show ?thesis by blast
  qed
qed

lemma flushQueue_fields:
  "attempts (flushQueue E c) = attempts c"
  "nextTimer (flushQueue E c) = nextTimer c"
  "timers (flushQueue E c) = timers c"
  "ws (flushQueue E c) = ws c"
  "disposed (flushQueue E c) = disposed c"
  "listeners (flushQueue E c) = listeners c"
  "reconnectTimer (flushQueue E c) = reconnectTimer c"
  "delivered (flushQueue E c) = delivered c"
  "maxQueueSize (flushQueue E c) = maxQueueSize c"
  "maxAttempts (flushQueue E c) = maxAttempts c"
  "maxBackoffMs (flushQueue E c) = maxBackoffMs c"
proof -
  obtain q ss where "flushQueue E c = c\<lparr> queue := q, sockets := ss \<rparr>"
    using flushQueue_frame by blast
  then show "attempts (flushQueue E c) = attempts c"
    "nextTimer (flushQueue E c) = nextTimer c"
    "timers (flushQueue E c) = timers c"
    "ws (flushQueue E c) = ws c"
    "disposed (flushQueue E c) = disposed c"
    "listeners (flushQueue E c) = listeners c"
    "reconnectTimer (flushQueue E c) = reconnectTimer c"
    "delivered (flushQueue E c) = delivered c"
    "maxQueueSize (flushQueue E c) = maxQueueSize c"
    "maxAttempts (flushQueue E c) = maxAttempts c"
    "maxBackoffMs (flushQueue E c) = maxBackoffMs c"
    by simp_all
qed

lemma send_counters:
  "attempts (send E c m) = attempts c" "nextTimer (send E c m) = nextTimer c"
  "timers (send E c m) = timers c"
  by (simp_all add: send_def Let_def ws_send_def split: option.splits)

lemma dispose_counters:
  "attempts (dispose c) = attempts c" "nextTimer (dispose c) = nextTimer c"
  by (simp_all add: dispose_def Let_def split: option.splits)

lemma connect_counters:
  "attempts (connect c) = attempts c" "nextTimer (connect c) = nextTimer c"
  "timers (connect c) = timers c"
  by (simp_all add: connect_def)

lemma subscribe_counters:
  "attempts (subscribe h c) = attempts c" "nextTimer (subscribe h c) = nextTimer c"
  "timers (subscribe h c) = timers c"
  by (simp_all add: subscribe_def ensureConnection_def connect_counters)

lemma unsubscribe_counters:
  "attempts (unsubscribe h c) = attempts c" "nextTimer (unsubscribe h c) = nextTimer c"
  by (simp_all add: unsubscribe_def Let_def dispose_counters)

lemma step_open_resets: "opens c ev \<Longrightarrow> attempts (step E c ev) = 0 \<and> nextTimer (step E c ev) = nextTimer c"
  by (cases ev) (simp_all add: opens_def step_def onopen_def flushQueue_fields set_readyState_def)

lemma step_counts:
  assumes "\<not> opens c ev"
  shows "attempts (step E c ev) = attempts c + (nextTimer (step E c ev) - nextTimer c)
    \<and> nextTimer c \<le> nextTimer (step E c ev) \<and> nextTimer (step E c ev) \<le> nextTimer c + 1"
proof (cases ev)
  case (Subscribe h)
  then show ?thesis by (simp add: step_def subscribe_counters)
next
  case (Unsubscribe h)
  then show ?thesis by (simp add: step_def unsubscribe_counters)
next
  case (Send m)
  then show ?thesis by (simp add: step_def send_counters)
next
  case Dispose
  then show ?thesis by (simp add: step_def dispose_counters)
next
  case (SockOpen i)
  with assms show ?thesis by (auto simp: step_def opens_def)
next
  case (SockMessage i d)
  then show ?thesis by (simp add: step_def)
next
  case (SockError i)
  then show ?thesis by (simp add: step_def onerror_def)
next
  case (SockClose i r)
  then show ?thesis
    by (simp add: step_def onclose_def scheduleReconnect_def set_readyState_def Let_def)
next
  case (TimerFire t)
  then show ?thesis by (simp add: step_def reconnect_callback_def connect_counters)
qed

lemma step_schedules:
  assumes "nextTimer (step E c ev) \<noteq> nextTimer c"
  shows "\<exists>i r. ev = SockClose i r
     \<and> timers (step E c ev) = timers c @ [(nextTimer c, reconnect_delay (attempts c) (maxBackoffMs c) r)]
     \<and> reconnectTimer (step E c ev) = Some (nextTimer c)"
proof (cases ev)
  case (Subscribe h)
  with assms show ?thesis by (simp add: step_def subscribe_counters)
next
  case (Unsubscribe h)
  with assms show ?thesis by (simp add: step_def unsubscribe_counters)
next
  case (Send m)
  with assms show ?thesis by (simp add: step_def send_counters)
next
  case Dispose
  with assms show ?thesis by (simp add: step_def dispose_counters)
next
  case (SockOpen i)
  with assms show ?thesis
    by (simp add: step_def onopen_def flushQueue_fields set_readyState_def split: if_splits)
next
  case (SockMessage i d)
  with assms show ?thesis by (simp add: step_def split: if_splits)
next
  case (SockError i)
  with assms show ?thesis by (simp add: step_def onerror_def)
next
  case (SockClose i r)
  with assms show ?thesis
    by (simp add: step_def onclose_def scheduleReconnect_def set_readyState_def Let_def
        split: if_splits)
next
  case (TimerFire t)
  with assms show ?thesis by (simp add: step_def reconnect_callback_def connect_counters split: if_splits)
qed

lemma sample_subscribed:
  "run sample_env fresh_client [Subscribe 1] =
     fresh_client\<lparr> listeners := [1], sockets := [\<lparr> readyState = CONNECTING, sent = [] \<rparr>],
                    ws := Some 0 \<rparr>"
  by (simp add: run_def step_def subscribe_def ensureConnection_def connect_def
      ws_readyState_def fresh_client_def new_WSClient_def default_options_def)

lemma sample_reconnecting:
  "run sample_env fresh_client [Subscribe 1, SockClose 0 0.5] =
     fresh_client\<lparr> listeners := [1], sockets := [\<lparr> readyState = CLOSED, sent = [] \<rparr>],
                    ws := Some 0, attempts := 1, timers := [(1, 1000)],
                    reconnectTimer := Some 1, nextTimer := 2 \<rparr>"
  by (simp add: run_def step_def subscribe_def ensureConnection_def connect_def
      ws_readyState_def fresh_client_def new_WSClient_def default_options_def
      onclose_def scheduleReconnect_def reconnect_delay_def set_readyState_def Let_def)

text \<open>
  C5.  For every attempt counter \<open>n\<close>, ceiling \<open>M\<close> and draw \<open>r\<close> of \<open>Math.random()\<close> (so
  \<open>0 \<le> r < 1\<close>), the delay computed by \<open>scheduleReconnect\<close> is \<open>min (1000 * 2 ^ n) M\<close> times
  a factor between 0.7 and 1.3, and it never exceeds \<open>M\<close>; for \<open>M \<ge> 0\<close> it lies between 0.7
  and 1.3 times that base.  A turn of the event loop schedules at most one timer; one is
  scheduled only by a close event, with exactly this delay for the current counter; the
  counter grows by one for each timer scheduled and is otherwise unchanged, except that a
  socket's open event sets it to 0.  Arithmetic is over the reals.
\<close>

theorem reconnect_backoff:
  "(0 \<le> r \<and> r < 1 \<longrightarrow>
      (\<exists>f. 0.7 \<le> f \<and> f \<le> 1.3 \<and> reconnect_delay n M r = f * min (1000 * 2 ^ n) M))
   \<and> reconnect_delay n M r \<le> M
   \<and> (0 \<le> r \<and> r < 1 \<and> 0 \<le> M \<longrightarrow>
        0.7 * min (1000 * 2 ^ n) M \<le> reconnect_delay n M r
        \<and> reconnect_delay n M r \<le> 1.3 * min (1000 * 2 ^ n) M)
   \<and> (nextTimer (step E c ev) \<noteq> nextTimer c \<longrightarrow>
        (\<exists>i r'. ev = SockClose i r'
           \<and> timers (step E c ev) =
               timers c @ [(nextTimer c, reconnect_delay (attempts c) (maxBackoffMs c) r')]))
   \<and> (opens c ev \<longrightarrow> attempts (step E c ev) = 0)
   \<and> (\<not> opens c ev \<longrightarrow>
        attempts (step E c ev) = attempts c + (nextTimer (step E c ev) - nextTimer c)
        \<and> nextTimer (step E c ev) - nextTimer c \<le> 1)"
proof -
  have a: "0 \<le> r \<and> r < 1 \<longrightarrow>
      (\<exists>f. 0.7 \<le> f \<and> f \<le> 1.3 \<and> reconnect_delay n M r = f * min (1000 * 2 ^ n) M)"
    using reconnect_delay_factor by blast
  have b: "0 \<le> r \<and> r < 1 \<and> 0 \<le> M \<longrightarrow>
        0.7 * min (1000 * 2 ^ n) M \<le> reconnect_delay n M r
        \<and> reconnect_delay n M r \<le> 1.3 * min (1000 * 2 ^ n) M"
    using reconnect_delay_range by blast
  have c: "nextTimer (step E c ev) \<noteq> nextTimer c \<longrightarrow>
        (\<exists>i r'. ev = SockClose i r'
           \<and> timers (step E c ev) =
               timers c @ [(nextTimer c, reconnect_delay (attempts c) (maxBackoffMs c) r')])"
    using step_schedules [of E c ev] by blast
  have d: "opens c ev \<longrightarrow> attempts (step E c ev) = 0"
    using step_open_resets [of c ev E] by blast
  have e: "\<not> opens c ev \<longrightarrow>
        attempts (step E c ev) = attempts c + (nextTimer (step E c ev) - nextTimer c)
        \<and> nextTimer (step E c ev) - nextTimer c \<le> 1"
    using step_counts [of c ev E] by auto
  show ?thesis by (intro conjI a b c d e reconnect_delay_le)
qed

theorem reconnect_backoff_witness:
  "(0::real) \<le> 0.9 \<and> (0.9::real) < 1 \<and> (0::real) \<le> 30000
   \<and> reconnect_delay 5 30000 0.9 = 30000
   \<and> reconnect_delay 3 30000 0 = 5600
   \<and> (\<exists>f. 0.7 \<le> f \<and> f \<le> 1.3 \<and> reconnect_delay 5 30000 0.9 = f * min (1000 * 2 ^ 5) 30000)
   \<and> 0.7 * min (1000 * 2 ^ 5) 30000 \<le> reconnect_delay 5 30000 0.9
   \<and> nextTimer (step sample_env (run sample_env fresh_client [Subscribe 1]) (SockClose 0 0.5)) \<noteq>
       nextTimer (run sample_env fresh_client [Subscribe 1])
   \<and> timers (step sample_env (run sample_env fresh_client [Subscribe 1]) (SockClose 0 0.5)) = [(1, 1000)]
   \<and> attempts (step sample_env (run sample_env fresh_client [Subscribe 1]) (SockClose 0 0.5)) = 1
   \<and> opens (run sample_env fresh_client [Subscribe 1]) (SockOpen 0 :: (nat, string) event)
   \<and> attempts (step sample_env (run sample_env fresh_client [Subscribe 1]) (SockOpen 0)) = 0"
proof -
  let ?c = "run sample_env fresh_client [Subscribe 1]"
  have r: "(0::real) \<le> 0.9 \<and> (0.9::real) < 1 \<and> (0::real) \<le> 30000" by simp
  have v: "reconnect_delay 5 30000 0.9 = 30000" "reconnect_delay 3 30000 0 = 5600"
    by (simp_all add: reconnect_delay_def Let_def)
  have s: "step sample_env ?c (SockClose 0 0.5) = run sample_env fresh_client [Subscribe 1, SockClose 0 0.5]"
    by (simp add: run_def)
  have n1: "nextTimer (step sample_env ?c (SockClose 0 0.5)) = 2"
    unfolding s unfolding sample_reconnecting by simp
  have n0: "nextTimer ?c = 1"
    unfolding sample_subscribed by (simp add: fresh_client_def new_WSClient_def)
  from n1 n0 have n: "nextTimer (step sample_env ?c (SockClose 0 0.5)) \<noteq> nextTimer ?c"
    by simp
  have t: "timers (step sample_env ?c (SockClose 0 0.5)) = [(1, 1000)]"
    "attempts (step sample_env ?c (SockClose 0 0.5)) = 1"
    unfolding s unfolding sample_reconnecting by simp_all
  have o: "opens ?c (SockOpen 0 :: (nat, string) event)"
    unfolding sample_subscribed by (simp add: opens_def)
  note T = reconnect_backoff [of "0.9" 5 30000 sample_env ?c "SockOpen 0"]
  from T r have f: "\<exists>f. 0.7 \<le> f \<and> f \<le> 1.3 \<and> reconnect_delay 5 30000 0.9 = f * min (1000 * 2 ^ 5) 30000"
    by blast
  from T r have g: "0.7 * min (1000 * 2 ^ 5) 30000 \<le> reconnect_delay 5 30000 0.9" by blast
  from T o have z: "attempts (step sample_env ?c (SockOpen 0)) = 0" by blast
  from r v f g n t o z show ?thesis by blast
qed

section \<open>A disposed client\<close>

lemma run_Nil [simp]: "run E c [] = c"
  by (simp add: run_def)

lemma run_Cons [simp]: "run E c (ev # evs) = run E (step E c ev) evs"
  by (simp add: run_def)

lemma inert_ws_readyState: "inert c \<Longrightarrow> ws_readyState c = None"
  by (simp add: inert_def ws_readyState_def)

lemma inert_flushQueue: "inert c \<Longrightarrow> flushQueue E c = c"
  by (subst flushQueue.simps) (simp add: inert_ws_readyState)

lemma inert_connect: "inert c \<Longrightarrow> connect c = c"
  by (simp add: inert_def connect_def)

lemma dispose_inert: "inert (dispose c)"
  by (simp add: inert_def dispose_def Let_def split: option.splits)

lemma inert_dispose_sockets: "inert c \<Longrightarrow> sockets (dispose c) = sockets c"
  by (simp add: inert_def dispose_def Let_def split: option.splits)

lemma sent_set_readyState:
  "map sent (sockets (set_readyState i st c)) = map sent (sockets c)"
proof (cases "i < length (sockets c)")
  case True
  then have "(map sent (sockets c))[i := sent (sockets c ! i)] = map sent (sockets c)"
    by (metis list_update_id nth_map)
  then show ?thesis by (simp add: set_readyState_def map_update)
next
  case False
  then have "(sockets c)[i := (sockets c ! i)\<lparr> readyState := st \<rparr>] = sockets c"
    by (intro list_update_beyond) simp
  then show ?thesis by (simp add: set_readyState_def)
qed

lemma inert_set_readyState: "inert c \<Longrightarrow> inert (set_readyState i st c)"
  by (simp add: inert_def set_readyState_def)

lemma inert_send:
  assumes "inert c"
  shows "queue (send E c m) =
           (if int (length (queue c)) \<ge> maxQueueSize c then tl (queue c) else queue c) @ [stringify E m]"
    and "sockets (send E c m) = sockets c" and "inert (send E c m)"
  using assms inert_ws_readyState [OF assms] by (simp_all add: send_def Let_def inert_def)

lemma inert_step:
  assumes "inert c"
  shows "inert (step E c ev) \<and> map sent (sockets (step E c ev)) = map sent (sockets c)"
proof (cases ev)
  case (Subscribe h)
  have "inert (c\<lparr> listeners := (if h \<in> set (listeners c) then listeners c else listeners c @ [h]) \<rparr>)"
    using assms by (simp add: inert_def)
  then have "subscribe h c = c\<lparr> listeners := (if h \<in> set (listeners c) then listeners c else listeners c @ [h]) \<rparr>"
    by (simp add: subscribe_def ensureConnection_def inert_ws_readyState inert_connect)
  with assms Subscribe show ?thesis by (simp add: step_def inert_def)
next
  case (Unsubscribe h)
  let ?c1 = "c\<lparr> listeners := removeAll h (listeners c) \<rparr>"
  have i: "inert ?c1" using assms by (simp add: inert_def)
  show ?thesis
  proof (cases "length (listeners ?c1) = 0")
    case True
    then have "step E c ev = dispose ?c1"
      using Unsubscribe by (simp add: step_def unsubscribe_def Let_def)
    then show ?thesis
      using dispose_inert [of ?c1] inert_dispose_sockets [OF i] by simp
  next
    case False
    then have "step E c ev = ?c1"
      using Unsubscribe by (simp add: step_def unsubscribe_def Let_def)
    then show ?thesis using i by simp
  qed
next
  case (Send m)
  with inert_send(2) [OF assms, of E m] inert_send(3) [OF assms, of E m] show ?thesis
    by (simp add: step_def)
next
  case Dispose
  with dispose_inert [of c] inert_dispose_sockets [OF assms] show ?thesis
    by (simp add: step_def)
next
  case (SockOpen i)
  have "inert ((set_readyState i OPEN c)\<lparr> attempts := 0 \<rparr>)"
    using assms by (simp add: inert_def set_readyState_def)
  then have "onopen E (set_readyState i OPEN c) = (set_readyState i OPEN c)\<lparr> attempts := 0 \<rparr>"
    by (simp add: onopen_def inert_flushQueue)
  with assms SockOpen show ?thesis
    by (simp add: step_def sent_set_readyState) (simp add: inert_def set_readyState_def)
next
  case (SockMessage i d)
  with assms show ?thesis by (simp add: step_def inert_def)
next
  case (SockError i)
  with assms show ?thesis by (simp add: step_def onerror_def)
next
  case (SockClose i r)
  have "onclose r (set_readyState i CLOSED c) = set_readyState i CLOSED c"
    using assms by (simp add: onclose_def inert_def set_readyState_def)
  with assms SockClose show ?thesis
    by (simp add: step_def sent_set_readyState inert_set_readyState)
next
  case (TimerFire t)
  have "\<And>ts. inert (c\<lparr> timers := ts, reconnectTimer := None \<rparr>)"
    using assms by (simp add: inert_def)
  then have "\<And>ts. reconnect_callback (c\<lparr> timers := ts \<rparr>) = c\<lparr> timers := ts, reconnectTimer := None \<rparr>"
    by (simp add: reconnect_callback_def inert_connect)
  with assms TimerFire show ?thesis by (simp add: step_def inert_def)
qed

lemma inert_run:
  "inert c \<Longrightarrow> inert (run E c evs) \<and> map sent (sockets (run E c evs)) = map sent (sockets c)"
proof (induction evs arbitrary: c)
  case Nil
  then show ?case by simp
next
  case (Cons ev evs)
  from inert_step [OF Cons.prems, of E ev]
  have a: "inert (step E c ev)" and b: "map sent (sockets (step E c ev)) = map sent (sockets c)"
    by simp_all
  from Cons.IH [OF a] b show ?case by simp
qed

text \<open>
  C10.  After \<open>dispose\<close> the queue is empty and \<open>send\<close> appends the serialized message to
  it: the queue is then exactly that message.  Whatever calls and events follow, the client
  stays disposed with no socket of its own and is never connected, no socket is created and
  nothing more is handed to any socket's \<open>send\<close>; and a later \<open>send\<close> still only appends to
  the queue (after dropping the oldest entry when the queue is at its limit).  \<open>send\<close> is
  total: it raises in no state.
\<close>

theorem send_after_dispose:
  "queue (send E (dispose c) m) = [stringify E m]
   \<and> sockets (send E (dispose c) m) = sockets (dispose c)
   \<and> disposed (run E (dispose c) evs)
   \<and> ws (run E (dispose c) evs) = None
   \<and> \<not> connected (run E (dispose c) evs)
   \<and> map sent (sockets (run E (dispose c) evs)) = map sent (sockets (dispose c))
   \<and> queue (send E (run E (dispose c) evs) m) =
       (if int (length (queue (run E (dispose c) evs))) \<ge> maxQueueSize (run E (dispose c) evs)
        then tl (queue (run E (dispose c) evs)) else queue (run E (dispose c) evs))
       @ [stringify E m]
   \<and> sockets (send E (run E (dispose c) evs) m) = sockets (run E (dispose c) evs)"
proof -
  have q0: "queue (dispose c) = []" by (simp add: dispose_def Let_def split: option.splits)
  note i0 = dispose_inert [of c]
  from inert_run [OF i0, of E evs]
  have i: "inert (run E (dispose c) evs)"
    and s: "map sent (sockets (run E (dispose c) evs)) = map sent (sockets (dispose c))"
    by simp_all
  have a: "queue (send E (dispose c) m) = [stringify E m]"
    using inert_send(1) [OF i0, of E m] q0 by simp
  have b: "sockets (send E (dispose c) m) = sockets (dispose c)" by (rule inert_send(2) [OF i0])
  have d: "disposed (run E (dispose c) evs)" "ws (run E (dispose c) evs) = None"
    using i by (simp_all add: inert_def)
  have e: "\<not> connected (run E (dispose c) evs)"
    using inert_ws_readyState [OF i] by (simp add: connected_def)
  show ?thesis
    by (intro conjI a b d e s inert_send(1) [OF i] inert_send(2) [OF i])
qed

theorem send_after_dispose_witness:
  "queue (send sample_env (dispose (run sample_env fresh_client [Subscribe 1])) ''late'') = [''late'']
   \<and> map sent (sockets (run sample_env (dispose (run sample_env fresh_client [Subscribe 1]))
        [Send ''late'', Subscribe 2, SockOpen 0, TimerFire 1])) = [[]]
   \<and> \<not> connected (run sample_env (dispose (run sample_env fresh_client [Subscribe 1]))
        [Send ''late'', Subscribe 2, SockOpen 0, TimerFire 1])"
proof -
  let ?c = "run sample_env fresh_client [Subscribe 1]"
  let ?evs = "[Send ''late'', Subscribe 2, SockOpen 0, TimerFire 1] :: (nat, string) event list"
  note T = send_after_dispose [of sample_env ?c "''late''" ?evs]
  have d: "map sent (sockets (dispose ?c)) = [[]]"
    unfolding sample_subscribed
    by (simp add: dispose_def Let_def sock_close_def fresh_client_def new_WSClient_def)
  have st: "stringify sample_env ''late'' = ''late''" by (simp add: sample_env_def)
  from T [THEN conjunct1] st
  have a: "queue (send sample_env (dispose ?c) ''late'') = [''late'']" by (simp only:)
  from T [THEN conjunct2, THEN conjunct2, THEN conjunct2, THEN conjunct2, THEN conjunct2,
      THEN conjunct1] d
  have b: "map sent (sockets (run sample_env (dispose ?c) ?evs)) = [[]]" by (simp only:)
  note e = T [THEN conjunct2, THEN conjunct2, THEN conjunct2, THEN conjunct2, THEN conjunct1]
  show ?thesis by (intro conjI a b e)
qed

section \<open>The offline queue\<close>

lemmas client_defs =
  run_def step_def subscribe_def unsubscribe_def ensureConnection_def connect_def
  ws_readyState_def fresh_client_def new_WSClient_def default_options_def sample_env_def
  onclose_def onopen_def scheduleReconnect_def reconnect_delay_def set_readyState_def
  reconnect_callback_def send_def ws_send_def sock_send_def dispose_def sock_close_def Let_def

lemma send_queue_bounded:
  "1 \<le> maxQueueSize c \<Longrightarrow> int (length (queue c)) \<le> maxQueueSize c \<Longrightarrow>
     int (length (queue (send E c m))) \<le> maxQueueSize c
     \<and> maxQueueSize (send E c m) = maxQueueSize c"
  by (cases "queue c") (auto simp: send_def ws_send_def Let_def split: option.splits)

lemma send_open_transmits:
  "ws c = Some i \<Longrightarrow> i < length (sockets c) \<Longrightarrow> readyState (sockets c ! i) = OPEN \<Longrightarrow>
     queue (send E c m) = queue c
     \<and> sent (sockets (send E c m) ! i) = sent (sockets c ! i) @ [stringify E m]"
  by (simp add: send_def ws_send_def ws_readyState_def sock_send_def Let_def)

lemma send_offline_queues:
  "ws_readyState c \<noteq> Some OPEN \<Longrightarrow>
     queue (send E c m) =
       (if int (length (queue c)) \<ge> maxQueueSize c then tl (queue c) else queue c) @ [stringify E m]
     \<and> sockets (send E c m) = sockets c"
  by (simp add: send_def Let_def)

lemma ws_send_fields:
  "queue (ws_send E c d) = queue c" "ws (ws_send E c d) = ws c"
  "length (sockets (ws_send E c d)) = length (sockets c)"
  "maxQueueSize (ws_send E c d) = maxQueueSize c"
  by (simp_all add: ws_send_def split: option.splits)

lemma ws_send_sent:
  "ws c = Some i \<Longrightarrow> i < length (sockets c) \<Longrightarrow>
     sent (sockets (ws_send E c d) ! i) = sent (sockets c ! i) @ [d]"
  by (simp add: ws_send_def sock_send_def)

lemma flushQueue_stop:
  "\<not> (length (queue c) > 0 \<and> ws_readyState c = Some OPEN) \<Longrightarrow> flushQueue E c = c"
  by (subst flushQueue.simps) auto

lemma flushQueue_go:
  "length (queue c) > 0 \<and> ws_readyState c = Some OPEN \<Longrightarrow>
     flushQueue E c = flushQueue E (ws_send E (c\<lparr> queue := tl (queue c) \<rparr>) (hd (queue c)))"
  by (subst flushQueue.simps) simp

lemma flushQueue_fifo:
  assumes "ws c = Some i" and "i < length (sockets c)"
  shows "\<exists>k. k \<le> length (queue c)
     \<and> queue (flushQueue E c) = drop k (queue c)
     \<and> sent (sockets (flushQueue E c) ! i) = sent (sockets c ! i) @ take k (queue c)
     \<and> (k < length (queue c) \<longrightarrow> readyState (sockets (flushQueue E c) ! i) \<noteq> OPEN)"
  using assms
proof (induction E c rule: flushQueue.induct)
  case (1 E c)
  show ?case
  proof (cases "length (queue c) > 0 \<and> ws_readyState c = Some OPEN")
    case True
    let ?c0 = "c\<lparr> queue := tl (queue c) \<rparr>"
    let ?c1 = "ws_send E ?c0 (hd (queue c))"
    have w: "ws ?c1 = Some i" and l: "i < length (sockets ?c1)"
      using "1.prems" by (simp_all add: ws_send_fields)
    from "1.IH" [OF True w l] obtain k where k: "k \<le> length (queue ?c1)"
      and q: "queue (flushQueue E ?c1) = drop k (queue ?c1)"
      and s: "sent (sockets (flushQueue E ?c1) ! i) = sent (sockets ?c1 ! i) @ take k (queue ?c1)"
      and o: "k < length (queue ?c1) \<longrightarrow> readyState (sockets (flushQueue E ?c1) ! i) \<noteq> OPEN"
      by blast
    have f: "flushQueue E c = flushQueue E ?c1" using True by (rule flushQueue_go)
    have q1: "queue ?c1 = tl (queue c)" by (simp add: ws_send_fields)
    have s1: "sent (sockets ?c1 ! i) = sent (sockets c ! i) @ [hd (queue c)]"
      using "1.prems" by (simp add: ws_send_sent)
    from True obtain x xs where xs: "queue c = x # xs" by (cases "queue c") auto
    have "Suc k \<le> length (queue c)" using k q1 xs by simp
    moreover have "queue (flushQueue E c) = drop (Suc k) (queue c)"
      using q q1 xs f by simp
    moreover have "sent (sockets (flushQueue E c) ! i) = sent (sockets c ! i) @ take (Suc k) (queue c)"
      using s s1 q1 xs f by simp
    moreover have "Suc k < length (queue c) \<longrightarrow> readyState (sockets (flushQueue E c) ! i) \<noteq> OPEN"
      using o q1 xs f by simp
    ultimately show ?thesis by blast
  next
    case False
    then have f: "flushQueue E c = c" by (rule flushQueue_stop)
    have "0 < length (queue c) \<longrightarrow> readyState (sockets c ! i) \<noteq> OPEN"
      using False "1.prems" by (auto simp: ws_readyState_def)
    then have "0 \<le> length (queue c) \<and> queue (flushQueue E c) = drop 0 (queue c)
      \<and> sent (sockets (flushQueue E c) ! i) = sent (sockets c ! i) @ take 0 (queue c)
      \<and> (0 < length (queue c) \<longrightarrow> readyState (sockets (flushQueue E c) ! i) \<noteq> OPEN)"
      using f by simp
    then show ?thesis by blast
  qed
qed

lemma flushQueue_shrinks:
  "length (queue (flushQueue E c)) \<le> length (queue c)
   \<and> maxQueueSize (flushQueue E c) = maxQueueSize c"
proof (induction E c rule: flushQueue.induct)
  case (1 E c)
  show ?case
  proof (cases "length (queue c) > 0 \<and> ws_readyState c = Some OPEN")
    case True
    let ?c1 = "ws_send E (c\<lparr> queue := tl (queue c) \<rparr>) (hd (queue c))"
    have f: "flushQueue E c = flushQueue E ?c1" using True by (rule flushQueue_go)
    from "1.IH" [OF True] show ?thesis unfolding f by (auto simp: ws_send_fields)
  next
    case False
    then show ?thesis by (simp add: flushQueue_stop)
  qed
qed

lemma queue_bounded_step:
  assumes "queue_bounded c"
  shows "queue_bounded (step E c ev) \<and> maxQueueSize (step E c ev) = maxQueueSize c"
proof (cases ev)
  case (Subscribe h)
  with assms show ?thesis
    by (simp add: queue_bounded_def step_def subscribe_def ensureConnection_def connect_def)
next
  case (Unsubscribe h)
  with assms show ?thesis
    by (simp add: queue_bounded_def step_def unsubscribe_def dispose_def Let_def split: option.splits)
next
  case (Send m)
  with assms send_queue_bounded [of c E m] show ?thesis
    by (simp add: queue_bounded_def step_def)
next
  case Dispose
  with assms show ?thesis
    by (simp add: queue_bounded_def step_def dispose_def Let_def split: option.splits)
next
  case (SockOpen i)
  have "length (queue (flushQueue E ((set_readyState i OPEN c)\<lparr> attempts := 0 \<rparr>))) \<le> length (queue c)
      \<and> maxQueueSize (flushQueue E ((set_readyState i OPEN c)\<lparr> attempts := 0 \<rparr>)) = maxQueueSize c"
    using flushQueue_shrinks [of E "(set_readyState i OPEN c)\<lparr> attempts := 0 \<rparr>"]
    by (simp add: set_readyState_def)
  with assms SockOpen show ?thesis
    by (auto simp: queue_bounded_def step_def onopen_def)
next
  case (SockMessage i d)
  with assms show ?thesis by (simp add: queue_bounded_def step_def)
next
  case (SockError i)
  with assms show ?thesis by (simp add: queue_bounded_def step_def onerror_def)
next
  case (SockClose i r)
  with assms show ?thesis
    by (simp add: queue_bounded_def step_def onclose_def scheduleReconnect_def
        set_readyState_def Let_def)
next
  case (TimerFire t)
  with assms show ?thesis
    by (simp add: queue_bounded_def step_def reconnect_callback_def connect_def)
qed

lemma queue_bounded_run:
  "queue_bounded c \<Longrightarrow> queue_bounded (run E c evs) \<and> maxQueueSize (run E c evs) = maxQueueSize c"
proof (induction evs arbitrary: c)
  case Nil
  then show ?case by simp
next
  case (Cons ev evs)
  from queue_bounded_step [OF Cons.prems, of E ev]
  have a: "queue_bounded (step E c ev)" and b: "maxQueueSize (step E c ev) = maxQueueSize c"
    by simp_all
  from Cons.IH [OF a] b show ?case by simp
qed

text \<open>
  For a limit of at least one the queue never grows past the limit, whatever the calls and
  events; and \<open>flushQueue\<close> sends a prefix of the queue, oldest first, keeps the rest, and
  stops early only when the socket is no longer open.
\<close>

lemma offline_queue_never_exceeds_positive_limit:
  assumes "opt_maxQueueSize options = Some q" and "1 \<le> q"
  shows "int (length (queue (run E (new_WSClient options) evs))) \<le> q"
proof -
  have "queue_bounded (new_WSClient options)"
    using assms by (simp add: queue_bounded_def new_WSClient_def)
  from queue_bounded_run [OF this, of E evs] assms show ?thesis
    by (simp add: queue_bounded_def new_WSClient_def)
qed

lemma three_of_four_queued:
  "queue (run sample_env three_queue_client [Send ''msg1'', Send ''msg2'', Send ''msg3'', Send ''msg4'']) =
     [''msg2'', ''msg3'', ''msg4'']"
  by (simp add: three_queue_client_def client_defs)

lemma three_of_four_delivered:
  "sockets (run sample_env three_queue_client
       [Send ''msg1'', Send ''msg2'', Send ''msg3'', Send ''msg4'', Subscribe 1, SockOpen 0]) =
     [\<lparr> readyState = OPEN, sent = [''msg2'', ''msg3'', ''msg4''] \<rparr>]
   \<and> queue (run sample_env three_queue_client
       [Send ''msg1'', Send ''msg2'', Send ''msg3'', Send ''msg4'', Subscribe 1, SockOpen 0]) = []"
  by (simp add: three_queue_client_def client_defs flushQueue.simps)

text \<open>
  C3, at the input where the code departs from it.  With \<open>maxQueueSize = 0\<close> and no open
  socket, the first \<open>send\<close> finds the queue at its limit, shifts nothing off the empty queue
  and pushes the message: the queue then holds one entry, more than the configured maximum
  of zero.
\<close>

theorem send_overfills_zero_queue:
  "maxQueueSize zero_queue_client = 0
   \<and> queue zero_queue_client = []
   \<and> queue (send sample_env zero_queue_client ''msg1'') = [''msg1'']
   \<and> int (length (queue (send sample_env zero_queue_client ''msg1''))) > maxQueueSize zero_queue_client"
  by (simp add: zero_queue_client_def client_defs)

section \<open>Sockets and timers of one client\<close>

text \<open>
  C2, at the inputs where the code departs from it.  A first subscriber connects and the
  socket closes, so a reconnect timer is pending.  A second subscriber arrives:
  \<open>ensureConnection\<close> sees a closed socket and connects at once.  When the timer fires,
  \<open>connect\<close> creates another socket without closing the one in use: two sockets are
  connecting at the same time.  If instead the second socket also closes before the timer
  fires, a second timer is scheduled while the first is still pending.
\<close>

theorem late_subscriber_two_live_sockets:
  "map readyState (sockets (run sample_env fresh_client late_subscriber)) =
     [CLOSED, CONNECTING, CONNECTING]
   \<and> length (live_sockets (run sample_env fresh_client late_subscriber)) = 2
   \<and> timers (run sample_env fresh_client second_failure) = [(1, 1000), (2, 2000)]
   \<and> pending_timers (run sample_env fresh_client second_failure) = 2"
  by (simp add: late_subscriber_def second_failure_def live_sockets_def pending_timers_def
      client_defs)

end
